theory Spec2Isabelle
  imports Main "HOL-Library.Word" "HOL-Library.Sublist"
begin

unbundle bit_operations_syntax

section \<open>Data model of \<open>home/filter.go\<close>\<close>

text \<open>
  The Go struct \<open>filter\<close> with the embedded \<open>dnsfilter.Filter\<close> (fields \<open>ID\<close>,
  \<open>Data\<close>, \<open>FilePath\<close>). Strings and byte slices are lists of 8-bit characters.
  \<open>time.Time\<close> values are kept as Unix seconds (what \<open>Time.Unix()\<close> returns);
  \<open>int\<close> and \<open>int64\<close> counters are unbounded integers: the identifiers start
  at the process start time and the scheduler interval is bounded (see below), so neither
  comes near \<open>2 ^ 63\<close>.
\<close>

record filter =
  Enabled :: bool
  URL :: string
  Name :: string
  RulesCount :: int
  LastUpdated :: int
  checksum :: "32 word"
  white :: bool
  ID :: int
  Data :: string
  FilePath :: string

text \<open>\<open>time.Time{}\<close> is January 1, year 1; this is its \<open>Unix()\<close> value.\<close>

definition zeroTime :: int where
  "zeroTime = - 62135596800"

text \<open>The zero value \<open>var uf filter\<close>.\<close>

definition zeroFilter :: filter where
  "zeroFilter = \<lparr> Enabled = False, URL = [], Name = [], RulesCount = 0,
     LastUpdated = zeroTime, checksum = 0, white = False, ID = 0, Data = [], FilePath = [] \<rparr>"

text \<open>
  The files of the filter directory. \<open>filter.Path()\<close> depends on the \<open>ID\<close> only,
  so a content file is addressed by the identifier; \<open>Path() + ".old"\<close> is a second
  address. A file has contents, a modification time, and may be unreadable
  (\<open>os.Open\<close> fails although \<open>os.Stat\<close> finds it).
\<close>

datatype path = ContentFile int | OldFile int

record diskFile =
  contents :: string
  modTime :: int
  readable :: bool

type_synonym files = "path \<Rightarrow> diskFile option"

text \<open>
  The process state: the two collections of \<open>config\<close> with the settings this
  file reads, the identifier counter, the single-flight flag, the filter directory and
  the list of descriptor sets handed to \<open>Context.dnsFilter.SetFilters\<close> so far.
\<close>

record dnsFilter =
  dID :: int
  dData :: string
  dFilePath :: "path option"

record state =
  Filters :: "filter list"
  WhitelistFilters :: "filter list"
  UserRules :: "string list"
  FilteringEnabled :: bool
  FiltersUpdateIntervalHours :: nat
  nextFilterID :: int
  refreshStatus :: nat
  disk :: files
  engine :: "(dnsFilter list \<times> dnsFilter list \<times> bool) list"

section \<open>The filter store\<close>

text \<open>The two loops of \<open>filterExistsNoLock\<close>: return at the first filter with the URL.\<close>

fun urlIn :: "string \<Rightarrow> filter list \<Rightarrow> bool" where
  "urlIn url [] = False"
| "urlIn url (f # fs) = (if URL f = url then True else urlIn url fs)"

definition filterExistsNoLock :: "string \<Rightarrow> state \<Rightarrow> bool" where
  "filterExistsNoLock url st =
     (if urlIn url (Filters st) then True
      else if urlIn url (WhitelistFilters st) then True
      else False)"

text \<open>\<open>filterAdd\<close>: the returned flag and the state after the call.\<close>

definition filterAdd :: "filter \<Rightarrow> state \<Rightarrow> bool \<times> state" where
  "filterAdd f st =
     (if filterExistsNoLock (URL f) st then (False, st)
      else if white f then (True, st\<lparr> WhitelistFilters := WhitelistFilters st @ [f] \<rparr>)
      else (True, st\<lparr> Filters := Filters st @ [f] \<rparr>))"

section \<open>Content checks and parsing\<close>

text \<open>\<open>isPrintableText\<close>: the loop returns false at the first byte it refuses.\<close>

fun isPrintableText :: "string \<Rightarrow> bool" where
  "isPrintableText [] = True"
| "isPrintableText (c # data) =
     (if ((32::nat) \<le> of_char c \<and> c \<noteq> CHR 0x7F) \<or> c = CHR 0x0A \<or> c = CHR 0x0D \<or> c = CHR 0x09
      then isPrintableText data
      else False)"

text \<open>
  \<open>hash/crc32\<close>: \<open>crc32.Update(crc, crc32.IEEETable, p)\<close>, as the library's
  \<open>simplePopulateTable\<close> and \<open>simpleUpdate\<close> compute it (the reversed polynomial
  \<open>0xedb88320\<close>, one table entry per byte value).
\<close>

definition IEEE :: "32 word" where
  "IEEE = 0xedb88320"

definition crcShift :: "32 word \<Rightarrow> 32 word" where
  "crcShift crc = (if crc AND 1 = 1 then drop_bit 1 crc XOR IEEE else drop_bit 1 crc)"

definition IEEETable :: "8 word \<Rightarrow> 32 word" where
  "IEEETable i = (crcShift ^^ 8) (ucast i)"

fun simpleUpdate :: "32 word \<Rightarrow> string \<Rightarrow> 32 word" where
  "simpleUpdate crc [] = crc"
| "simpleUpdate crc (v # p) =
     simpleUpdate (IEEETable (ucast crc XOR of_char v) XOR drop_bit 8 crc) p"

definition crc32Update :: "32 word \<Rightarrow> string \<Rightarrow> 32 word" where
  "crc32Update crc p = NOT (simpleUpdate (NOT crc) p)"

definition ChecksumIEEE :: "string \<Rightarrow> 32 word" where
  "ChecksumIEEE p = crc32Update 0 p"

text \<open>
  \<open>bufio.Reader.ReadString('\n')\<close> on the bytes still unread: the line with its
  delimiter and the rest, or \<open>None\<close> when the data ends before a delimiter (the
  call returns \<open>io.EOF\<close> together with the unterminated tail).
\<close>

fun ReadString :: "string \<Rightarrow> (string \<times> string) option" where
  "ReadString [] = None"
| "ReadString (c # cs) =
     (if c = CHR 0x0A then Some ([c], cs)
      else (case ReadString cs of None \<Rightarrow> None | Some (l, r) \<Rightarrow> Some (c # l, r)))"

text \<open>
  \<open>strings.TrimSpace\<close> removes leading and trailing Unicode white space. On UTF-8
  bytes these are the code points below: the six ASCII ones, U+0085, U+00A0, U+1680,
  U+2000 to U+200A, U+2028, U+2029, U+202F, U+205F and U+3000.
\<close>

definition spaceRunes :: "string list" where
  "spaceRunes =
     [[CHR 0x09], [CHR 0x0A], [CHR 0x0B], [CHR 0x0C], [CHR 0x0D], [CHR 0x20],
      [CHR 0xC2, CHR 0x85], [CHR 0xC2, CHR 0xA0], [CHR 0xE1, CHR 0x9A, CHR 0x80],
      [CHR 0xE2, CHR 0x80, CHR 0x80], [CHR 0xE2, CHR 0x80, CHR 0x81],
      [CHR 0xE2, CHR 0x80, CHR 0x82], [CHR 0xE2, CHR 0x80, CHR 0x83],
      [CHR 0xE2, CHR 0x80, CHR 0x84], [CHR 0xE2, CHR 0x80, CHR 0x85],
      [CHR 0xE2, CHR 0x80, CHR 0x86], [CHR 0xE2, CHR 0x80, CHR 0x87],
      [CHR 0xE2, CHR 0x80, CHR 0x88], [CHR 0xE2, CHR 0x80, CHR 0x89],
      [CHR 0xE2, CHR 0x80, CHR 0x8A], [CHR 0xE2, CHR 0x80, CHR 0xA8],
      [CHR 0xE2, CHR 0x80, CHR 0xA9], [CHR 0xE2, CHR 0x80, CHR 0xAF],
      [CHR 0xE2, CHR 0x81, CHR 0x9F], [CHR 0xE3, CHR 0x80, CHR 0x80]]"

function trimRunes :: "string list \<Rightarrow> string \<Rightarrow> string" where
  "trimRunes rs s =
     (case find (\<lambda>r. r \<noteq> [] \<and> prefix r s) rs of
        None \<Rightarrow> s
      | Some r \<Rightarrow> trimRunes rs (drop (length r) s))"
  by pat_completeness auto
termination
proof (relation "measure (\<lambda>(rs, s). length s)")
  show "wf (measure (\<lambda>(rs, s). length s))" by simp
next
  fix rs :: "string list" and s r :: string
  assume "find (\<lambda>r. r \<noteq> [] \<and> prefix r s) rs = Some r"
  then have "r \<noteq> []" and "prefix r s"
    by (auto simp: find_Some_iff)
  then have "s \<noteq> []" by auto
  with \<open>r \<noteq> []\<close> show "((rs, drop (length r) s), (rs, s)) \<in> measure (\<lambda>(rs, s). length s)"
    by simp
qed

declare trimRunes.simps [simp del]

definition TrimSpace :: "string \<Rightarrow> string" where
  "TrimSpace s = rev (trimRunes (map rev spaceRunes) (rev (trimRunes spaceRunes s)))"

text \<open>
  \<open>filterTitleRegexp.FindAllStringSubmatch(line, -1)\<close> for the expression
  \<open>^! Title: +(.*)$\<close>: the first submatch of the first match, if the line matches. The
  expression is anchored at both ends, \<open>.\<close> matches every character but the newline,
  and the greedy \<open> +\<close> takes every space that follows the colon.
\<close>

definition filterTitleRegexp :: "string \<Rightarrow> string option" where
  "filterTitleRegexp line =
     (if prefix ''! Title: '' line \<and> CHR 0x0A \<notin> set line
      then Some (dropWhile (\<lambda>c. c = CHR '' '') (drop 9 line))
      else None)"

text \<open>
  \<open>parseFilterContents\<close>: the loop over the lines of the reader, with the local
  variables as arguments. It stops at the first \<open>ReadString\<close> error.
\<close>

function parseLoop :: "string \<Rightarrow> int \<Rightarrow> string \<Rightarrow> bool \<Rightarrow> 32 word \<Rightarrow> int \<times> 32 word \<times> string" where
  "parseLoop r rulesCount name seenTitle csum =
     (case ReadString r of
        None \<Rightarrow> (rulesCount, csum, name)
      | Some (line, rest) \<Rightarrow>
          (let csum' = crc32Update csum line;
               line' = TrimSpace line
           in if length line' = 0 then parseLoop rest rulesCount name seenTitle csum'
              else if hd line' = CHR ''!'' then
                (case filterTitleRegexp line' of
                   Some m \<Rightarrow>
                     (if \<not> seenTitle then parseLoop rest rulesCount m True csum'
                      else parseLoop rest rulesCount name seenTitle csum')
                 | None \<Rightarrow> parseLoop rest rulesCount name seenTitle csum')
              else parseLoop rest (rulesCount + 1) name seenTitle csum'))"
  by pat_completeness auto

termination parseLoop
proof -
  have len: "ReadString r = Some (line, rest) \<Longrightarrow> length rest < length r" for r line rest
    by (induction r arbitrary: line rest) (auto split: if_splits option.splits)
  show ?thesis
    by (relation "measure (\<lambda>(r, c, n, s, k). length r)") (auto dest: len)
qed

declare parseLoop.simps [simp del]

definition parseFilterContents :: "string \<Rightarrow> int \<times> 32 word \<times> string" where
  "parseFilterContents f = parseLoop f 0 [] False 0"

text \<open>
  For the statements about \<open>parseFilterContents\<close>: the lines of a text without their
  newline (a last line needs none), the lines with the white space around them trimmed,
  a line that counts as a rule, and the first title among some lines.
\<close>

fun textLines :: "string \<Rightarrow> string list" where
  "textLines [] = []"
| "textLines (c # cs) =
     (if c = CHR 0x0A then [] # textLines cs
      else (case textLines cs of [] \<Rightarrow> [[c]] | l # ls \<Rightarrow> (c # l) # ls))"

definition trimmedLines :: "string \<Rightarrow> string list" where
  "trimmedLines body = map TrimSpace (textLines body)"

definition ruleLine :: "string \<Rightarrow> bool" where
  "ruleLine l \<longleftrightarrow> l \<noteq> [] \<and> hd l \<noteq> CHR ''!''"

definition firstTitle :: "string list \<Rightarrow> string" where
  "firstTitle ls = (case List.map_filter filterTitleRegexp ls of [] \<Rightarrow> [] | t # _ \<Rightarrow> t)"

definition terminated :: "string \<Rightarrow> bool" where
  "terminated body \<longleftrightarrow> body = [] \<or> last body = CHR 0x0A"

section \<open>Loading, editing and numbering filters\<close>

datatype error =
    ErrNotExist | ErrOpen
  | ErrTempFile | ErrGet | ErrStatus int | ErrNonPrintable | ErrHTML
  | ErrWrite | ErrRead | ErrRename
  | ErrAlreadyRunning

text \<open>\<open>LastTimeUpdated\<close>, \<open>load\<close> and \<open>unload\<close> of a filter, on a given filter directory.\<close>

definition LastTimeUpdated :: "files \<Rightarrow> filter \<Rightarrow> int" where
  "LastTimeUpdated fs f =
     (case fs (ContentFile (ID f)) of None \<Rightarrow> zeroTime | Some d \<Rightarrow> modTime d)"

definition load :: "files \<Rightarrow> filter \<Rightarrow> error option \<times> filter" where
  "load fs f =
     (case fs (ContentFile (ID f)) of
        None \<Rightarrow> (Some ErrNotExist, f)
      | Some d \<Rightarrow>
          if \<not> readable d then (Some ErrOpen, f)
          else (case parseFilterContents (contents d) of
                  (rulesCount, csum, _) \<Rightarrow>
                    (None, f\<lparr> RulesCount := rulesCount, checksum := csum,
                              LastUpdated := LastTimeUpdated fs f \<rparr>)))"

definition unload :: "filter \<Rightarrow> filter" where
  "unload f = f\<lparr> RulesCount := 0, checksum := 0 \<rparr>"

definition statusFound :: int where "statusFound = 1"
definition statusEnabledChanged :: int where "statusEnabledChanged = 2"
definition statusURLChanged :: int where "statusURLChanged = 4"
definition statusURLExists :: int where "statusURLExists = 8"
definition statusUpdateRequired :: int where "statusUpdateRequired = 0x10"

text \<open>
  \<open>filterSetProperties\<close>. The loop runs to the first filter of the chosen collection
  whose URL is \<open>url\<close> and returns from inside its body; \<open>firstURL\<close> is that search,
  and \<open>f := &(*filters)[i]\<close> is read with \<open>getFilters\<close> and written back with
  \<open>putFilter\<close>.
\<close>

fun firstURL :: "string \<Rightarrow> filter list \<Rightarrow> nat option" where
  "firstURL url [] = None"
| "firstURL url (f # fs) =
     (if URL f \<noteq> url then map_option Suc (firstURL url fs) else Some 0)"

definition getFilters :: "bool \<Rightarrow> state \<Rightarrow> filter list" where
  "getFilters whitelist st = (if whitelist then WhitelistFilters st else Filters st)"

definition putFilters :: "bool \<Rightarrow> filter list \<Rightarrow> state \<Rightarrow> state" where
  "putFilters whitelist fs st =
     (if whitelist then st\<lparr> WhitelistFilters := fs \<rparr> else st\<lparr> Filters := fs \<rparr>)"

definition putFilter :: "bool \<Rightarrow> nat \<Rightarrow> filter \<Rightarrow> state \<Rightarrow> state" where
  "putFilter whitelist i f st = putFilters whitelist ((getFilters whitelist st)[i := f]) st"

text \<open>The second half of the loop body: \<open>if f.Enabled != newf.Enabled { ... }; return r | statusFound\<close>.\<close>

definition setEnabled :: "filter \<Rightarrow> bool \<Rightarrow> nat \<Rightarrow> int \<Rightarrow> filter \<Rightarrow> state \<Rightarrow> int \<times> state" where
  "setEnabled newf whitelist i r f st =
     (if Enabled f \<noteq> Enabled newf then
        (let r1 = r OR statusEnabledChanged;
             f1 = f\<lparr> Enabled := Enabled newf \<rparr>
         in if Enabled f1 then
              (if r1 AND statusURLChanged = 0 then
                 (case load (disk st) f1 of
                    (Some e, f2) \<Rightarrow>
                      ((r1 OR statusUpdateRequired) OR statusFound,
                       putFilter whitelist i
                         (f2\<lparr> LastUpdated := zeroTime, checksum := 0, RulesCount := 0 \<rparr>) st)
                  | (None, f2) \<Rightarrow> (r1 OR statusFound, putFilter whitelist i f2 st))
               else (r1 OR statusFound, putFilter whitelist i f1 st))
            else (r1 OR statusFound, putFilter whitelist i (unload f1) st))
      else (r OR statusFound, putFilter whitelist i f st))"

definition filterSetProperties :: "string \<Rightarrow> filter \<Rightarrow> bool \<Rightarrow> state \<Rightarrow> int \<times> state" where
  "filterSetProperties url newf whitelist st =
     (case firstURL url (getFilters whitelist st) of
        None \<Rightarrow> (0, st)
      | Some i \<Rightarrow>
          (let f = (getFilters whitelist st ! i)\<lparr> Name := Name newf \<rparr>;
               st1 = putFilter whitelist i f st
           in if URL f \<noteq> URL newf then
                (let r = 0 OR (statusURLChanged OR statusUpdateRequired)
                 in if filterExistsNoLock (URL newf) st1 then (statusURLExists, st1)
                    else setEnabled newf whitelist i r
                           ((unload (f\<lparr> URL := URL newf \<rparr>))
                              \<lparr> LastUpdated := zeroTime, checksum := 0, RulesCount := 0 \<rparr>) st1)
              else setEnabled newf whitelist i 0 f st1))"

text \<open>
  \<open>loadFilters\<close> with \<open>assignUniqueFilterID\<close>: the array after the loop and the
  counter \<open>nextFilterID\<close> after it. A load error is only logged. The counter and the
  identifiers are \<open>int64\<close> in the code and integers here: the two agree as long as the
  counter stays below \<open>2 ^ 63 - 1\<close>, where the code's \<open>nextFilterID++\<close> wraps around.
\<close>

definition assignUniqueFilterID :: "int \<Rightarrow> int \<times> int" where
  "assignUniqueFilterID next = (next, next + 1)"

fun loadFilters :: "files \<Rightarrow> filter list \<Rightarrow> int \<Rightarrow> filter list \<times> int" where
  "loadFilters fs [] next = ([], next)"
| "loadFilters fs (f # array) next =
     (case (if ID f = 0
            then (case assignUniqueFilterID next of (v, next1) \<Rightarrow> (f\<lparr> ID := v \<rparr>, next1))
            else (f, next)) of
        (f1, next1) \<Rightarrow>
          (case loadFilters fs array next1 of
             (rest, next2) \<Rightarrow>
               ((if \<not> Enabled f1 then f1 else snd (load fs f1)) # rest, next2)))"

text \<open>\<open>deduplicateFilters\<close>: the kept prefix of \<open>config.Filters\<close>, with the map of URLs seen.\<close>

fun dedupLoop :: "(string \<rightharpoonup> bool) \<Rightarrow> filter list \<Rightarrow> filter list" where
  "dedupLoop urls [] = []"
| "dedupLoop urls (f # fs) =
     (case urls (URL f) of
        None \<Rightarrow> f # dedupLoop (urls(URL f \<mapsto> True)) fs
      | Some _ \<Rightarrow> dedupLoop urls fs)"

definition deduplicateFilters :: "state \<Rightarrow> state" where
  "deduplicateFilters st = st\<lparr> Filters := dedupLoop Map.empty (Filters st) \<rparr>"

text \<open>
  \<open>updateUniqueFilterID\<close>: the counter after the loop. Here too the code's
  \<open>filter.ID + 1\<close> wraps around at an identifier of \<open>2 ^ 63 - 1\<close>, which this function
  does not; it agrees with the code on lists whose identifiers are all smaller.
\<close>

fun updateUniqueFilterID :: "filter list \<Rightarrow> int \<Rightarrow> int" where
  "updateUniqueFilterID [] next = next"
| "updateUniqueFilterID (f # fs) next =
     updateUniqueFilterID fs (if next < ID f then ID f + 1 else next)"

text \<open>\<open>initFiltering\<close> (creating the directory is left out: it is not part of the state).\<close>

definition initFiltering :: "state \<Rightarrow> state" where
  "initFiltering st =
     (case loadFilters (disk st) (Filters st) (nextFilterID st) of
        (bl, n1) \<Rightarrow>
          (case loadFilters (disk st) (WhitelistFilters st) n1 of
             (wl, n2) \<Rightarrow>
               (let st1 = deduplicateFilters
                            (st\<lparr> Filters := bl, WhitelistFilters := wl, nextFilterID := n2 \<rparr>);
                    n3 = updateUniqueFilterID (Filters st1) (nextFilterID st1);
                    n4 = updateUniqueFilterID (WhitelistFilters st1) n3
                in st1\<lparr> nextFilterID := n4 \<rparr>)))"

definition defaultFilters :: "filter list" where
  "defaultFilters =
     [zeroFilter\<lparr> ID := 1, Enabled := True,
        URL := ''https://adguardteam.github.io/AdGuardSDNSFilter/Filters/filter.txt'',
        Name := ''AdGuard Simplified Domain Names filter'' \<rparr>,
      zeroFilter\<lparr> ID := 2, Enabled := False, URL := ''https://adaway.org/hosts.txt'',
        Name := ''AdAway'' \<rparr>,
      zeroFilter\<lparr> ID := 3, Enabled := False, URL := ''https://hosts-file.net/ad_servers.txt'',
        Name := ''hpHosts - Ad and Tracking servers only'' \<rparr>,
      zeroFilter\<lparr> ID := 4, Enabled := False,
        URL := ''https://www.malwaredomainlist.com/hostslist/hosts.txt'',
        Name := ''MalwareDomainList.com Hosts List'' \<rparr>]"

section \<open>The fetch pipeline\<close>

text \<open>
  What the outside world does during one call of \<open>filter.update()\<close>: whether
  \<open>ioutil.TempFile\<close> and \<open>client.Get\<close> succeed, the status code, the results of
  the successive \<open>resp.Body.Read\<close> calls, whether \<open>os.Rename\<close> succeeds, the
  modification time the temporary file carries and the value of \<open>time.Now()\<close> read
  by \<open>update\<close>. A body is a list of reads that return a \<open>nil\<close> error, followed by
  one last read that returns \<open>io.EOF\<close> or another error; every read comes with the
  outcome of the \<open>tmpfile.Write\<close> of its bytes. A read returns at most the 64 KiB
  of \<open>buf\<close>; nothing below depends on that bound.
\<close>

datatype readEnd = EOF | ReadError

record response =
  tmpFileOK :: bool
  getOK :: bool
  statusCode :: int
  reads :: "(string \<times> bool) list"
  lastRead :: "string \<times> readEnd \<times> bool"
  renameOK :: bool
  tmpTime :: int
  clock :: int

text \<open>
  \<open>strings.ToLower\<close> and \<open>strings.Index\<close>. \<open>ToLower\<close> is used only to look
  for the ASCII texts \<open><html\<close> and \<open><!doctype\<close>; no character outside ASCII
  has one of their letters as its lower case, so lowering the ASCII letters decides the
  same searches.
\<close>

definition toLowerByte :: "char \<Rightarrow> char" where
  "toLowerByte c =
     (if (65::nat) \<le> of_char c \<and> of_char c \<le> (90::nat) then char_of (of_char c + (32::nat)) else c)"

definition ToLower :: "string \<Rightarrow> string" where
  "ToLower s = map toLowerByte s"

fun indexFrom :: "int \<Rightarrow> string \<Rightarrow> string \<Rightarrow> int" where
  "indexFrom i [] substr = (if substr = [] then i else - 1)"
| "indexFrom i (c # cs) substr =
     (if prefix substr (c # cs) then i else indexFrom (i + 1) cs substr)"

definition Index :: "string \<Rightarrow> string \<Rightarrow> int" where
  "Index s substr = indexFrom 0 s substr"

text \<open>
  The buffer \<open>firstChunk := make([]byte, 4*1024)\<close> holds the \<open>firstChunkLen\<close> bytes
  gathered so far followed by zero bytes; \<open>firstChunkBuf\<close> is the whole buffer, which
  is what the two tests receive.
\<close>

definition firstChunkSize :: nat where
  "firstChunkSize = 4 * 1024"

definition firstChunkBuf :: "string \<Rightarrow> string" where
  "firstChunkBuf got = got @ replicate (firstChunkSize - length got) (CHR 0x00)"

text \<open>
  The block \<open>if htmlTest { ... }\<close> of the read loop, for a read of \<open>buf\<close> with
  \<open>err == io.EOF\<close> given by \<open>eof\<close>: an error, or the new \<open>htmlTest\<close> and the
  bytes gathered.
\<close>

definition gather :: "bool \<Rightarrow> string \<Rightarrow> string \<Rightarrow> bool \<Rightarrow> error + (bool \<times> string)" where
  "gather htmlTest got buf eof =
     (if htmlTest then
        (let got1 = got @ take (firstChunkSize - length got) buf
         in if length got1 = firstChunkSize \<or> eof then
              (if \<not> isPrintableText (firstChunkBuf got1) then Inl ErrNonPrintable
               else (let s = ToLower (firstChunkBuf got1)
                     in if Index s ''<html'' \<ge> 0 \<or> Index s ''<!doctype'' \<ge> 0
                        then Inl ErrHTML
                        else Inr (False, [])))
            else Inr (True, got1))
      else Inr (htmlTest, got))"

text \<open>The read loop: an error, or the bytes written to the temporary file.\<close>

fun readLoop ::
  "(string \<times> bool) list \<Rightarrow> string \<times> readEnd \<times> bool \<Rightarrow> bool \<Rightarrow> string \<Rightarrow> string
     \<Rightarrow> error + string" where
  "readLoop [] (buf, e, wok) htmlTest got tmp =
     (case gather htmlTest got buf (e = EOF) of
        Inl err \<Rightarrow> Inl err
      | Inr (h, g) \<Rightarrow>
          if \<not> wok then Inl ErrWrite
          else if e = EOF then Inr (tmp @ buf)
          else Inl ErrRead)"
| "readLoop ((buf, wok) # rs) final htmlTest got tmp =
     (case gather htmlTest got buf False of
        Inl err \<Rightarrow> Inl err
      | Inr (h, g) \<Rightarrow>
          if \<not> wok then Inl ErrWrite
          else readLoop rs final h g (tmp @ buf))"

text \<open>
  All bytes of a response body in the order they are read, and the bytes that
  \<open>isPrintableText\<close> accepts.
\<close>

definition bodyBytes :: "response \<Rightarrow> string" where
  "bodyBytes w = concat (map fst (reads w)) @ fst (lastRead w)"

definition allowedByte :: "char \<Rightarrow> bool" where
  "allowedByte c \<longleftrightarrow>
     ((32::nat) \<le> of_char c \<and> c \<noteq> CHR 0x7F) \<or> c = CHR 0x0A \<or> c = CHR 0x0D \<or> c = CHR 0x09"

text \<open>
  The wording of the specification: printable ASCII (the bytes 0x20 to 0x7E), CR, LF
  and TAB.
\<close>

definition printableASCII :: "char \<Rightarrow> bool" where
  "printableASCII c \<longleftrightarrow>
     ((32::nat) \<le> of_char c \<and> of_char c \<le> (126::nat)) \<or> c = CHR 0x0A \<or> c = CHR 0x0D \<or> c = CHR 0x09"

text \<open>The part of \<open>updateIntl\<close> up to the end of the read loop.\<close>

definition download :: "response \<Rightarrow> error + string" where
  "download w =
     (if \<not> tmpFileOK w then Inl ErrTempFile
      else if \<not> getOK w then Inl ErrGet
      else if statusCode w \<noteq> 200 then Inl (ErrStatus (statusCode w))
      else readLoop (reads w) (lastRead w) True [] [])"

text \<open>
  \<open>updateIntl\<close> and \<open>update\<close>: the returned pair, the filter after the call and the
  filter directory after it.
\<close>

definition updateIntl :: "response \<Rightarrow> filter \<Rightarrow> files \<Rightarrow> (bool \<times> error option) \<times> filter \<times> files" where
  "updateIntl w f fs =
     (case download w of
        Inl e \<Rightarrow> ((False, Some e), f, fs)
      | Inr tmp \<Rightarrow>
          (case parseFilterContents tmp of
             (rulesCount, csum, filterName) \<Rightarrow>
               if checksum f = csum then ((False, None), f, fs)
               else (let f1 = (if filterName \<noteq> [] then f\<lparr> Name := filterName \<rparr> else f);
                         f2 = f1\<lparr> RulesCount := rulesCount, checksum := csum \<rparr>
                     in if \<not> renameOK w then ((False, Some ErrRename), f2, fs)
                        else ((True, None), f2,
                              fs(ContentFile (ID f2) \<mapsto>
                                 \<lparr> contents = tmp, modTime = tmpTime w, readable = True \<rparr>)))))"

definition Chtimes :: "files \<Rightarrow> path \<Rightarrow> int \<Rightarrow> files" where
  "Chtimes fs p t = (case fs p of None \<Rightarrow> fs | Some d \<Rightarrow> fs(p \<mapsto> d\<lparr> modTime := t \<rparr>))"

definition update :: "response \<Rightarrow> filter \<Rightarrow> files \<Rightarrow> (bool \<times> error option) \<times> filter \<times> files" where
  "update w f fs =
     (case updateIntl w f fs of
        ((b, err), f1, fs1) \<Rightarrow>
          (let f2 = f1\<lparr> LastUpdated := clock w \<rparr>
           in ((b, err), f2,
               if \<not> b then Chtimes fs1 (ContentFile (ID f2)) (LastUpdated f2) else fs1)))"

section \<open>The refresh orchestrator\<close>

text \<open>
  The world during one call of \<open>refreshFiltersArray\<close>: \<open>time.Now()\<close> at its start
  and, for the \<open>i\<close>-th filter of the snapshot, what happens during its \<open>update()\<close>.
\<close>

record world =
  startTime :: int
  fetch :: "nat \<Rightarrow> response"

text \<open>The first loop: the filters that are enabled and due, with the four copied fields.\<close>

fun snapshot :: "bool \<Rightarrow> int \<Rightarrow> nat \<Rightarrow> filter list \<Rightarrow> filter list" where
  "snapshot force t hours [] = []"
| "snapshot force t hours (f # fs) =
     (if \<not> Enabled f then snapshot force t hours fs
      else if \<not> force \<and> LastUpdated f + int hours * 60 * 60 > t then snapshot force t hours fs
      else zeroFilter\<lparr> ID := ID f, URL := URL f, Name := Name f, checksum := checksum f \<rparr>
             # snapshot force t hours fs)"

text \<open>
  The second loop: every snapshot entry after its \<open>update()\<close>, the flags
  \<open>updateFlags\<close>, the count \<open>nfail\<close> and the filter directory. The entry at
  position \<open>i + k\<close> of the snapshot meets \<open>fetch (i + k)\<close>.
\<close>

fun updateAll ::
  "(nat \<Rightarrow> response) \<Rightarrow> nat \<Rightarrow> filter list \<Rightarrow> files \<Rightarrow> filter list \<times> bool list \<times> nat \<times> files" where
  "updateAll fetches i [] fs = ([], [], 0, fs)"
| "updateAll fetches i (uf # ufs) fs =
     (case update (fetches i) uf fs of
        ((updated, err), uf1, fs1) \<Rightarrow>
          (case updateAll fetches (Suc i) ufs fs1 of
             (ufs1, flags, nfail, fs2) \<Rightarrow>
               (uf1 # ufs1, updated # flags, (if err \<noteq> None then Suc nfail else nfail), fs2)))"

text \<open>The inner loop of the third loop, for one snapshot entry: the collection and the count.\<close>

fun commitOne :: "filter \<Rightarrow> bool \<Rightarrow> filter list \<Rightarrow> filter list \<times> int" where
  "commitOne uf updated [] = ([], 0)"
| "commitOne uf updated (f # fs) =
     (case commitOne uf updated fs of
        (fs1, n) \<Rightarrow>
          if ID f \<noteq> ID uf \<or> URL f \<noteq> URL uf then (f # fs1, n)
          else (let f1 = f\<lparr> LastUpdated := LastUpdated uf \<rparr>
                in if \<not> updated then (f1 # fs1, n)
                   else (f1\<lparr> Name := Name uf, RulesCount := RulesCount uf,
                              checksum := checksum uf \<rparr> # fs1, n + 1)))"

fun commitAll :: "filter list \<Rightarrow> bool list \<Rightarrow> filter list \<Rightarrow> filter list \<times> int" where
  "commitAll (uf # ufs) (updated # flags) filters =
     (case commitOne uf updated filters of
        (fs1, n) \<Rightarrow>
          (case commitAll ufs flags fs1 of (fs2, m) \<Rightarrow> (fs2, n + m)))"
| "commitAll ufs flags filters = (filters, 0)"

text \<open>
  For the statements about the third loop: what one entry of the snapshot does to one
  filter of the collection, and what the entries do one after the other.
\<close>

definition commitF :: "filter \<Rightarrow> bool \<Rightarrow> filter \<Rightarrow> filter" where
  "commitF uf updated f =
     (if ID f \<noteq> ID uf \<or> URL f \<noteq> URL uf then f
      else if \<not> updated then f\<lparr> LastUpdated := LastUpdated uf \<rparr>
      else f\<lparr> LastUpdated := LastUpdated uf, Name := Name uf, RulesCount := RulesCount uf,
              checksum := checksum uf \<rparr>)"

fun commitFs :: "filter list \<Rightarrow> bool list \<Rightarrow> filter \<Rightarrow> filter" where
  "commitFs (uf # ufs) (u # us) f = commitFs ufs us (commitF uf u f)"
| "commitFs ufs us f = f"

text \<open>
  \<open>refreshFiltersArray\<close>; the argument \<open>whitelist\<close> says which collection
  \<open>filters\<close> points to. The result is the returned tuple and the state after the call.
\<close>

definition refreshFiltersArray ::
  "bool \<Rightarrow> bool \<Rightarrow> world \<Rightarrow> state \<Rightarrow> (int \<times> filter list \<times> bool list \<times> bool) \<times> state" where
  "refreshFiltersArray whitelist force w st =
     (let updateFilters =
            snapshot force (startTime w) (FiltersUpdateIntervalHours st) (getFilters whitelist st)
      in if length updateFilters = 0 then ((0, [], [], False), st)
         else (case updateAll (fetch w) 0 updateFilters (disk st) of
                 (ufs, updateFlags, nfail, fs) \<Rightarrow>
                   if nfail = length ufs then ((0, [], [], True), st\<lparr> disk := fs \<rparr>)
                   else (case commitAll ufs updateFlags (getFilters whitelist st) of
                           (filters, updateCount) \<Rightarrow>
                             ((updateCount, ufs, updateFlags, False),
                              putFilters whitelist filters (st\<lparr> disk := fs \<rparr>)))))"

definition FilterRefreshForce :: int where "FilterRefreshForce = 1"
definition FilterRefreshAllowlists :: int where "FilterRefreshAllowlists = 2"
definition FilterRefreshBlocklists :: int where "FilterRefreshBlocklists = 4"

text \<open>\<open>userFilter\<close> and \<open>enableFilters\<close>: the descriptor sets given to the serving engine.\<close>

fun joinLines :: "string list \<Rightarrow> string" where
  "joinLines [] = []"
| "joinLines [x] = x"
| "joinLines (x # y # ys) = x @ [CHR 0x0A] @ joinLines (y # ys)"

definition userFilter :: "state \<Rightarrow> filter" where
  "userFilter st = zeroFilter\<lparr> Enabled := True, Data := joinLines (UserRules st) \<rparr>"

fun enabledFiles :: "filter list \<Rightarrow> dnsFilter list" where
  "enabledFiles [] = []"
| "enabledFiles (f # fs) =
     (if \<not> Enabled f then enabledFiles fs
      else \<lparr> dID = ID f, dData = [], dFilePath = Some (ContentFile (ID f)) \<rparr> # enabledFiles fs)"

definition enableFilters :: "bool \<Rightarrow> state \<Rightarrow> state" where
  "enableFilters async st =
     (let sets =
            (if FilteringEnabled st then
               (\<lparr> dID = ID (userFilter st), dData = Data (userFilter st), dFilePath = None \<rparr>
                  # enabledFiles (Filters st),
                enabledFiles (WhitelistFilters st))
             else ([], []))
      in st\<lparr> engine := engine st @ [(fst sets, snd sets, async)] \<rparr>)"

text \<open>The loop that removes the \<open>.old\<close> file of every updated entry.\<close>

fun removeOld :: "filter list \<Rightarrow> bool list \<Rightarrow> files \<Rightarrow> files" where
  "removeOld (uf # ufs) (updated # flags) fs =
     removeOld ufs flags (if \<not> updated then fs else fs(OldFile (ID uf) := None))"
| "removeOld ufs flags fs = fs"

text \<open>
  \<open>refreshFiltersIfNecessary\<close>, with one world for the block-list pass and one for the
  allow-list pass: the returned pair and the state after the call.
\<close>

definition refreshFiltersIfNecessary ::
  "int \<Rightarrow> world \<Rightarrow> world \<Rightarrow> state \<Rightarrow> (int \<times> bool) \<times> state" where
  "refreshFiltersIfNecessary flags wb ww st =
     (let force = (flags AND FilterRefreshForce \<noteq> 0);
          rb = (if flags AND FilterRefreshBlocklists \<noteq> 0
                then refreshFiltersArray False force wb st
                else ((0, [], [], False), st));
          updateCountB = fst (fst rb);
          updateFiltersB = fst (snd (fst rb));
          updateFlagsB = fst (snd (snd (fst rb)));
          netError = snd (snd (snd (fst rb)));
          st1 = snd rb;
          rw = (if flags AND FilterRefreshAllowlists \<noteq> 0
                then refreshFiltersArray True force ww st1
                else ((0, [], [], False), st1));
          updateCount = updateCountB + fst (fst rw);
          updateFilters = updateFiltersB @ fst (snd (fst rw));
          updateFlags = updateFlagsB @ fst (snd (snd (fst rw)));
          netErrorW = snd (snd (snd (fst rw)));
          st2 = snd rw
      in if netError \<and> netErrorW then ((0, True), st2)
         else if updateCount \<noteq> 0 then
           (let st3 = enableFilters False st2
            in ((updateCount, False), st3\<lparr> disk := removeOld updateFilters updateFlags (disk st3) \<rparr>))
         else ((updateCount, False), st2))"

text \<open>
  \<open>refreshFilters\<close>. \<open>atomic.CompareAndSwapUint32(&refreshStatus, 0, 1)\<close> succeeds
  when the flag is 0 and then sets it to 1.
\<close>

definition CompareAndSwap01 :: "state \<Rightarrow> bool \<times> state" where
  "CompareAndSwap01 st =
     (if refreshStatus st = 0 then (True, st\<lparr> refreshStatus := 1 \<rparr>) else (False, st))"

definition refreshFilters ::
  "int \<Rightarrow> bool \<Rightarrow> world \<Rightarrow> world \<Rightarrow> state \<Rightarrow> (int \<times> error option) \<times> state" where
  "refreshFilters flags important wb ww st =
     (case CompareAndSwap01 st of
        (swapped, st1) \<Rightarrow>
          if \<not> important \<and> \<not> swapped then ((0, Some ErrAlreadyRunning), st1)
          else (case refreshFiltersIfNecessary flags wb ww st1 of
                  ((nUpdated, _), st2) \<Rightarrow> ((nUpdated, None), st2\<lparr> refreshStatus := 0 \<rparr>)))"

section \<open>The scheduler\<close>

text \<open>
  One iteration of the loop of \<open>periodicallyRefreshFilters\<close>, up to the sleep: the state
  and the interval \<open>intval\<close> the loop then sleeps for. The loop itself never returns; a
  run of it is the iteration applied to the worlds of its successive rounds.
\<close>

definition maxInterval :: int where
  "maxInterval = 1 * 60 * 60"

definition initialInterval :: int where
  "initialInterval = 5"

definition periodicRound :: "world \<times> world \<Rightarrow> state \<times> int \<Rightarrow> state \<times> int" where
  "periodicRound ws c =
     (case c of (st, intval) \<Rightarrow>
        (let r = (if FiltersUpdateIntervalHours st \<noteq> 0 \<and> fst (CompareAndSwap01 st) then
                    (case refreshFiltersIfNecessary
                            (FilterRefreshBlocklists OR FilterRefreshAllowlists)
                            (fst ws) (snd ws) (snd (CompareAndSwap01 st)) of
                       ((_, isNetworkErr), st2) \<Rightarrow>
                         (isNetworkErr, st2\<lparr> refreshStatus := 0 \<rparr>,
                          if \<not> isNetworkErr then maxInterval else intval))
                  else (False, st, intval));
             isNetworkErr = fst r;
             intval1 = snd (snd r)
         in (fst (snd r),
             if isNetworkErr
             then (if intval1 * 2 > maxInterval then maxInterval else intval1 * 2)
             else intval1)))"

text \<open>
  Whether the round starting in a state runs a cycle, and whether the cycle it runs
  reports a total network failure (the second result of \<open>refreshFiltersIfNecessary\<close>).
\<close>

definition cycleRuns :: "state \<Rightarrow> bool" where
  "cycleRuns st \<longleftrightarrow> FiltersUpdateIntervalHours st \<noteq> 0 \<and> refreshStatus st = 0"

definition cycleFails :: "world \<times> world \<Rightarrow> state \<Rightarrow> bool" where
  "cycleFails ws st \<longleftrightarrow>
     snd (fst (refreshFiltersIfNecessary (FilterRefreshBlocklists OR FilterRefreshAllowlists)
                 (fst ws) (snd ws) (st\<lparr> refreshStatus := 1 \<rparr>)))"

definition periodicallyRefreshFilters :: "(world \<times> world) list \<Rightarrow> state \<Rightarrow> state \<times> int" where
  "periodicallyRefreshFilters rounds st = fold periodicRound rounds (st, initialInterval)"

section \<open>A concrete state\<close>

text \<open>
  A first run: the default block-lists, no allow-list, an empty filter directory and the
  counter at a process start time.
\<close>

definition firstRun :: state where
  "firstRun =
     \<lparr> Filters = defaultFilters, WhitelistFilters = [], UserRules = [],
       FilteringEnabled = True, FiltersUpdateIntervalHours = 24,
       nextFilterID = 1600000000, refreshStatus = 0, disk = Map.empty, engine = [] \<rparr>"

definition exampleList :: filter where
  "exampleList = zeroFilter\<lparr> Enabled := True, URL := ''http://x/list.txt'', Name := ''x'',
                              ID := 1600000000, white := True \<rparr>"

text \<open>
  A state with one enabled block-list and one enabled allow-list, and a world in which
  the network is down: every \<open>client.Get\<close> fails.
\<close>

definition bothLists :: state where
  "bothLists = firstRun\<lparr> Filters := [defaultFilters ! 0], WhitelistFilters := [exampleList] \<rparr>"

definition noConnection :: response where
  "noConnection =
     \<lparr> tmpFileOK = True, getOK = False, statusCode = 0, reads = [], lastRead = ([], EOF, True),
       renameOK = True, tmpTime = 1600000100, clock = 1600000100 \<rparr>"

definition offline :: world where
  "offline = \<lparr> startTime = 1600000100, fetch = (\<lambda>i. noConnection) \<rparr>"

text \<open>
  Two persisted configurations: one in which a block-list and an allow-list carry the same
  identifier, and one with the default lists, a new block-list and a new allow-list that
  have no identifier yet.
\<close>

definition sameIds :: state where
  "sameIds = firstRun\<lparr> Filters := [(defaultFilters ! 0)\<lparr> ID := 7 \<rparr>],
                        WhitelistFilters := [exampleList\<lparr> ID := 7 \<rparr>] \<rparr>"

definition newEntries :: state where
  "newEntries =
     firstRun\<lparr> Filters := defaultFilters @
                   [zeroFilter\<lparr> Enabled := True, URL := ''http://y/list.txt'', Name := ''y'' \<rparr>],
                WhitelistFilters := [exampleList\<lparr> ID := 0 \<rparr>] \<rparr>"

text \<open>
  A response that delivers, in one read that ends the stream, 4096 bytes of text that
  begins with a two-byte UTF-8 character.
\<close>

definition utf8Body :: string where
  "utf8Body = CHR 0xC3 # CHR 0xA9 # replicate 4094 (CHR ''a'')"

definition utf8Response :: response where
  "utf8Response =
     \<lparr> tmpFileOK = True, getOK = True, statusCode = 200, reads = [],
       lastRead = (utf8Body, EOF, True), renameOK = True,
       tmpTime = 1600000100, clock = 1600000100 \<rparr>"

text \<open>
  A response of 4201 bytes in two reads, with a control byte at offset 4000.
\<close>

definition binaryResponse :: response where
  "binaryResponse =
     \<lparr> tmpFileOK = True, getOK = True, statusCode = 200,
       reads = [(replicate 4000 (CHR ''a''), True)],
       lastRead = (CHR 0x01 # replicate 200 (CHR ''a''), EOF, True), renameOK = True,
       tmpTime = 1600000100, clock = 1600000100 \<rparr>"

text \<open>
  A small list with two title lines and a blank line, and a list of more than 4 KiB whose
  title line is indented, with the response that delivers it in one read.
\<close>

definition smallList :: string where
  "smallList = ''! Title:  My list'' @ [CHR 0x0D, CHR 0x0A] @ ''! Title: later'' @ [CHR 0x0A] @
               ''  '' @ [CHR 0x0A] @ ''||example.org^'' @ [CHR 0x0A]"

definition indentedBody :: string where
  "indentedBody = '' ! Title: A'' @ [CHR 0x0A] @ replicate 4096 (CHR ''a'') @ [CHR 0x0A]"

definition indentedResponse :: response where
  "indentedResponse =
     \<lparr> tmpFileOK = True, getOK = True, statusCode = 200, reads = [],
       lastRead = (indentedBody, EOF, True), renameOK = True,
       tmpTime = 1600000100, clock = 1600000100 \<rparr>"

text \<open>
  A list of one rule line of 4096 letters, the response that delivers it in one read, a
  state with two enabled block-lists of which the second has this list on record, and a
  world in which the first fetch finds the network down and the later ones succeed.
\<close>

definition lettersBody :: string where
  "lettersBody = replicate 4096 (CHR ''a'') @ [CHR 0x0A]"

definition lettersResponse :: response where
  "lettersResponse =
     \<lparr> tmpFileOK = True, getOK = True, statusCode = 200, reads = [],
       lastRead = (lettersBody, EOF, True), renameOK = True,
       tmpTime = 1600000200, clock = 1600000200 \<rparr>"

definition twoLists :: state where
  "twoLists =
     firstRun\<lparr> Filters :=
       [defaultFilters ! 0,
        zeroFilter\<lparr> ID := 5, Enabled := True, URL := ''http://b/list.txt'', Name := ''b'',
                    RulesCount := 1, checksum := ChecksumIEEE lettersBody,
                    LastUpdated := 1500000000 \<rparr>] \<rparr>"

definition flaky :: world where
  "flaky = \<lparr> startTime = 1600000100,
             fetch = (\<lambda>i. if i = 0 then noConnection else lettersResponse) \<rparr>"




text \<open>A response that delivers a list of one rule, 15 bytes, in one read.\<close>

definition shortResponse :: response where
  "shortResponse =
     \<lparr> tmpFileOK = True, getOK = True, statusCode = 200, reads = [],
       lastRead = (''||example.org^'' @ [CHR 0x0A], EOF, True), renameOK = True,
       tmpTime = 1600000100, clock = 1600000100 \<rparr>"

definition editToAdAway :: filter where
  "editToAdAway = zeroFilter\<lparr> Enabled := True, URL := ''https://adaway.org/hosts.txt'',
                               Name := ''renamed'' \<rparr>"

section \<open>Properties of the filter store\<close>

lemma urlIn_iff: "urlIn url fs \<longleftrightarrow> (\<exists>f \<in> set fs. URL f = url)"
  by (induction fs) auto

lemma filterExistsNoLock_iff:
  "filterExistsNoLock url st \<longleftrightarrow>
     (\<exists>f \<in> set (Filters st) \<union> set (WhitelistFilters st). URL f = url)"
  by (auto simp: filterExistsNoLock_def urlIn_iff)

text \<open>
  Claim C4. For every filter \<open>f\<close>, \<open>filterAdd f\<close> returns false and leaves the state
  (both collections included) as it was whenever some filter of the block-list or of the
  allow-list collection already has the URL of \<open>f\<close>; otherwise it returns true and
  appends \<open>f\<close> at the end of its target collection (the allow-list when \<open>white f\<close>,
  the block-list otherwise), leaving the other collection as it was.
\<close>

theorem filterAdd_unique_url:
  "filterAdd f st =
     (if \<exists>g \<in> set (Filters st) \<union> set (WhitelistFilters st). URL g = URL f
      then (False, st)
      else (True,
        if white f then st\<lparr> WhitelistFilters := WhitelistFilters st @ [f] \<rparr>
        else st\<lparr> Filters := Filters st @ [f] \<rparr>))"
  unfolding filterAdd_def filterExistsNoLock_iff by simp

theorem filterAdd_unique_url_witness:
  "filterAdd (defaultFilters ! 1) firstRun = (False, firstRun) \<and>
   filterAdd exampleList firstRun = (True, firstRun\<lparr> WhitelistFilters := [exampleList] \<rparr>)"
  using filterAdd_unique_url [of "defaultFilters ! 1" firstRun]
        filterAdd_unique_url [of exampleList firstRun]
  by (simp add: firstRun_def defaultFilters_def zeroFilter_def exampleList_def)

section \<open>Properties of \<open>filterSetProperties\<close>\<close>

lemma firstURL_None_iff: "firstURL url fs = None \<longleftrightarrow> (\<forall>f \<in> set fs. URL f \<noteq> url)"
  by (induction fs) auto

lemma firstURL_Some: "firstURL url fs = Some i \<Longrightarrow> i < length fs \<and> URL (fs ! i) = url \<and> (\<forall>j < i. URL (fs ! j) \<noteq> url)"
proof (induction fs arbitrary: i)
  case Nil then show ?case by simp
next
  case (Cons f fs)
  show ?case
  proof (cases "URL f = url")
    case True with Cons.prems show ?thesis by simp
  next
    case False
    with Cons.prems obtain k where k: "firstURL url fs = Some k" "i = Suc k" by auto
    from Cons.IH [OF k(1)] False k(2) show ?thesis
      by (auto simp: less_Suc_eq_0_disj)
  qed
qed

lemma or_statusFound_bit: "(r OR statusFound) AND statusFound = statusFound"
  unfolding statusFound_def by (rule bit_eqI) (auto simp: bit_simps)

lemma or_statusFound_nonzero: "r OR statusFound \<noteq> 0"
  using or_statusFound_bit [of r] by (auto simp: statusFound_def)

lemma setEnabled_found: "fst (setEnabled newf wl i r f st) AND statusFound = statusFound"
  by (simp add: setEnabled_def Let_def or_statusFound_bit split: prod.splits option.splits)

lemma map_URL_name: "map URL (fs[i := (fs ! i)\<lparr>Name := n\<rparr>]) = map URL fs"
proof (cases "i < length fs")
  case True
  then have "(map URL fs)[i := URL (fs ! i)] = map URL fs"
    by (metis length_map list_update_id nth_map)
  then show ?thesis by (simp add: map_update)
next
  case False
  then show ?thesis by (simp add: list_update_beyond not_less)
qed

lemma urlIn_map: "urlIn u fs \<longleftrightarrow> u \<in> set (map URL fs)"
  by (auto simp: urlIn_iff)

lemma urlIn_name: "urlIn u (fs[i := (fs ! i)\<lparr>Name := n\<rparr>]) = urlIn u fs"
  by (simp only: urlIn_map map_URL_name)

lemma exists_putFilter_name:
  "filterExistsNoLock u (putFilter wl i ((getFilters wl st ! i)\<lparr>Name := n\<rparr>) st) = filterExistsNoLock u st"
  by (simp add: filterExistsNoLock_def putFilter_def putFilters_def getFilters_def urlIn_name)

text \<open>
  Claim C6, as the code has it. The status returned by \<open>filterSetProperties\<close> is 0
  (not found) exactly when no filter of the selected collection has the given URL. When a
  filter is located, the status has the flag \<open>statusFound\<close>, except when the edit
  changes the URL to one that a filter of either collection already has: then the status
  is \<open>statusURLExists\<close> alone, a value that differs from 0 and does not
  contain \<open>statusFound\<close>.
\<close>

theorem setProperties_status:
  "(fst (filterSetProperties url newf whitelist st) = 0
      \<longleftrightarrow> \<not> (\<exists>f \<in> set (getFilters whitelist st). URL f = url)) \<and>
   ((\<exists>f \<in> set (getFilters whitelist st). URL f = url) \<longrightarrow>
      (if URL newf \<noteq> url \<and> filterExistsNoLock (URL newf) st
       then fst (filterSetProperties url newf whitelist st) = statusURLExists
       else fst (filterSetProperties url newf whitelist st) AND statusFound = statusFound)) \<and>
   statusURLExists \<noteq> 0 \<and> statusURLExists AND statusFound = 0"
proof (cases "firstURL url (getFilters whitelist st)")
  case None
  moreover from None have "\<forall>f \<in> set (getFilters whitelist st). URL f \<noteq> url"
    by (simp add: firstURL_None_iff)
  ultimately show ?thesis
    by (auto simp: filterSetProperties_def statusURLExists_def statusFound_def)
next
  case (Some i)
  from firstURL_Some [OF Some] have i: "i < length (getFilters whitelist st)"
    and u: "URL (getFilters whitelist st ! i) = url" by auto
  then have ex: "\<exists>f \<in> set (getFilters whitelist st). URL f = url"
    by (auto simp: set_conv_nth)
  have nz: "fst (setEnabled newf whitelist j r f s) \<noteq> 0" for j r f s
    using setEnabled_found [of newf whitelist j r f s] by (auto simp: statusFound_def)
  have c: "statusURLExists \<noteq> 0" "statusURLExists AND statusFound = 0"
    by (simp_all add: statusURLExists_def statusFound_def)
  have a: "fst (filterSetProperties url newf whitelist st) \<noteq> 0"
    using Some u c(1) by (simp add: filterSetProperties_def Let_def nz)
  have b: "(if URL newf \<noteq> url \<and> filterExistsNoLock (URL newf) st
       then fst (filterSetProperties url newf whitelist st) = statusURLExists
       else fst (filterSetProperties url newf whitelist st) AND statusFound = statusFound)"
    using Some u
    by (auto simp: filterSetProperties_def Let_def exists_putFilter_name setEnabled_found)
  show ?thesis
    using a b c ex by blast
qed

text \<open>
  The claim as first stated fails on the default block-lists: renaming the first list to
  the URL of the second locates the first list, yet the status lacks \<open>statusFound\<close>.
\<close>

theorem setProperties_status_counterexample:
  "firstURL (URL (defaultFilters ! 0)) (getFilters False firstRun) = Some 0 \<and>
   fst (filterSetProperties (URL (defaultFilters ! 0)) editToAdAway False firstRun) AND statusFound
     \<noteq> statusFound"
  by (simp add: filterSetProperties_def firstRun_def defaultFilters_def zeroFilter_def
      editToAdAway_def getFilters_def putFilter_def putFilters_def filterExistsNoLock_def
      statusURLExists_def statusFound_def Let_def)

theorem setProperties_status_witness:
  "fst (filterSetProperties (URL (defaultFilters ! 0)) editToAdAway False firstRun) = statusURLExists \<and>
   fst (filterSetProperties ''http://nowhere/'' editToAdAway False firstRun) = 0 \<and>
   fst (filterSetProperties (URL (defaultFilters ! 1)) editToAdAway False firstRun) AND statusFound
     = statusFound"
  using setProperties_status [of "URL (defaultFilters ! 0)" editToAdAway False firstRun]
        setProperties_status [of "''http://nowhere/''" editToAdAway False firstRun]
        setProperties_status [of "URL (defaultFilters ! 1)" editToAdAway False firstRun]
  by (simp add: firstRun_def defaultFilters_def zeroFilter_def
      editToAdAway_def getFilters_def filterExistsNoLock_def)

text \<open>
  Claim C10. When \<open>filterSetProperties\<close> locates a filter by its URL (at the first
  position \<open>i\<close> with that URL) and the edit changes the URL to one that already exists,
  the call returns \<open>statusURLExists\<close> and the state it leaves differs from the one
  before in exactly one place: the located filter has the new name. So the failing call
  has overwritten the name, and the filter is not as it was whenever the names differ.
\<close>

theorem setProperties_collision_renames:
  assumes "firstURL url (getFilters whitelist st) = Some i"
    and "URL newf \<noteq> url" and "filterExistsNoLock (URL newf) st"
  shows "filterSetProperties url newf whitelist st =
           (statusURLExists,
            putFilter whitelist i ((getFilters whitelist st ! i)\<lparr> Name := Name newf \<rparr>) st) \<and>
         Name (getFilters whitelist (snd (filterSetProperties url newf whitelist st)) ! i) = Name newf \<and>
         (Name (getFilters whitelist st ! i) \<noteq> Name newf \<longrightarrow>
            getFilters whitelist (snd (filterSetProperties url newf whitelist st)) ! i
              \<noteq> getFilters whitelist st ! i)"
proof -
  from firstURL_Some [OF assms(1)] have i: "i < length (getFilters whitelist st)"
    and u: "URL (getFilters whitelist st ! i) = url" by auto
  have r: "filterSetProperties url newf whitelist st =
           (statusURLExists,
            putFilter whitelist i ((getFilters whitelist st ! i)\<lparr> Name := Name newf \<rparr>) st)"
    using assms u by (simp add: filterSetProperties_def Let_def exists_putFilter_name)
  have g: "getFilters whitelist (putFilter whitelist i f st) ! i = f" for f
    using i by (cases whitelist) (simp_all add: putFilter_def putFilters_def getFilters_def)
  have n: "f\<lparr> Name := x \<rparr> \<noteq> f" if "Name f \<noteq> x" for f :: filter and x
    using that by (metis filter.select_convs(3) filter.surjective filter.update_convs(3))
  show ?thesis unfolding r using g n by auto
qed

theorem setProperties_collision_renames_witness:
  "filterSetProperties (URL (defaultFilters ! 0)) editToAdAway False firstRun =
     (statusURLExists,
      firstRun\<lparr> Filters := (defaultFilters ! 0)\<lparr> Name := ''renamed'' \<rparr> # tl defaultFilters \<rparr>) \<and>
   Name (Filters (snd (filterSetProperties (URL (defaultFilters ! 0)) editToAdAway False firstRun)) ! 0)
     = ''renamed''"
  using setProperties_collision_renames [of "URL (defaultFilters ! 0)" False firstRun 0 editToAdAway]
  by (simp add: firstRun_def defaultFilters_def zeroFilter_def
      editToAdAway_def getFilters_def putFilter_def putFilters_def filterExistsNoLock_def)

section \<open>Properties of the refresh entry point and of the scheduler\<close>

text \<open>
  Claim C8. \<open>refreshFilters flags important\<close> returns the already-running error exactly
  when the single-flight flag is set (a cycle is running) and \<open>important\<close> is false, and
  then it returns count 0 and leaves the whole state as it was (no refresh work). In every
  other case it takes the flag if it was free, runs \<open>refreshFiltersIfNecessary\<close>, clears
  the flag and returns that cycle's count with a nil error, whatever the cycle reports about
  the network.
\<close>

theorem refreshFilters_already_running:
  "(snd (fst (refreshFilters flags important wb ww st)) = Some ErrAlreadyRunning
      \<longleftrightarrow> refreshStatus st \<noteq> 0 \<and> \<not> important) \<and>
   (if refreshStatus st \<noteq> 0 \<and> \<not> important
    then refreshFilters flags important wb ww st = ((0, Some ErrAlreadyRunning), st)
    else refreshFilters flags important wb ww st =
           ((fst (fst (refreshFiltersIfNecessary flags wb ww (snd (CompareAndSwap01 st)))), None),
            (snd (refreshFiltersIfNecessary flags wb ww (snd (CompareAndSwap01 st))))
              \<lparr> refreshStatus := 0 \<rparr>))"
  by (auto simp: refreshFilters_def CompareAndSwap01_def split: prod.splits)


lemma periodicRound_interval:
  assumes "initialInterval \<le> i" "i \<le> maxInterval"
  shows "initialInterval \<le> snd (periodicRound ws (st, i)) \<and> snd (periodicRound ws (st, i)) \<le> maxInterval
    \<and> i \<le> snd (periodicRound ws (st, i))"
  using assms
  by (auto simp: periodicRound_def Let_def maxInterval_def initialInterval_def split: prod.splits)

lemma periodic_snoc:
  "periodicallyRefreshFilters (rounds @ [ws]) st = periodicRound ws (periodicallyRefreshFilters rounds st)"
  by (simp add: periodicallyRefreshFilters_def)

lemma periodic_bounds:
  "initialInterval \<le> snd (periodicallyRefreshFilters rounds st) \<and>
   snd (periodicallyRefreshFilters rounds st) \<le> maxInterval"
proof (induction rounds rule: rev_induct)
  case Nil
  show ?case by (simp add: periodicallyRefreshFilters_def initialInterval_def maxInterval_def)
next
  case (snoc ws rounds)
  obtain s i where e: "periodicallyRefreshFilters rounds st = (s, i)" by (cases "periodicallyRefreshFilters rounds st")
  with snoc periodicRound_interval [of i ws s] show ?case
    by (simp add: periodic_snoc)
qed

lemma periodicRound_cases:
  "snd (periodicRound ws (st, i)) =
     (if cycleRuns st then
        (if cycleFails ws st then (if i * 2 > maxInterval then maxInterval else i * 2)
         else maxInterval)
      else i)"
  by (auto simp: periodicRound_def cycleRuns_def cycleFails_def CompareAndSwap01_def Let_def split: prod.splits)

text \<open>
  Claim C7. After any number of rounds of the scheduler loop, started with the initial
  interval of 5 seconds, the sleep interval lies between the initial interval and the
  ceiling of 3600 seconds. One more round never lowers it: a round that runs a cycle
  reporting total network failure doubles it, capped at the ceiling; a round that runs a
  cycle that is not a total failure sets it to the ceiling; a round that runs no cycle
  (updates switched off, or a cycle already running) leaves it as it is.
\<close>

theorem scheduler_backoff:
  "initialInterval \<le> snd (periodicallyRefreshFilters rounds st) \<and>
   snd (periodicallyRefreshFilters rounds st) \<le> maxInterval \<and>
   snd (periodicallyRefreshFilters rounds st) \<le> snd (periodicallyRefreshFilters (rounds @ [ws]) st) \<and>
   snd (periodicallyRefreshFilters (rounds @ [ws]) st) =
     (if cycleRuns (fst (periodicallyRefreshFilters rounds st)) then
        (if cycleFails ws (fst (periodicallyRefreshFilters rounds st))
         then min (2 * snd (periodicallyRefreshFilters rounds st)) maxInterval
         else maxInterval)
      else snd (periodicallyRefreshFilters rounds st))"
proof -
  obtain s i where e: "periodicallyRefreshFilters rounds st = (s, i)" by (cases "periodicallyRefreshFilters rounds st")
  from periodic_bounds [of rounds st] e have b: "initialInterval \<le> i" "i \<le> maxInterval" by auto
  from periodicRound_interval [OF b, of ws s] periodicRound_cases [of ws s i] b e
  show ?thesis
    by (auto simp: periodic_snoc min_def)
qed

text \<open>The two theorems on a concrete run: both lists enabled, the network down.\<close>

lemma offline_cycle:
  "refreshFiltersIfNecessary 6 offline offline (bothLists\<lparr> refreshStatus := k \<rparr>)
     = ((0, True), bothLists\<lparr> refreshStatus := k \<rparr>)"
  by (simp add: bothLists_def firstRun_def defaultFilters_def zeroFilter_def exampleList_def
      offline_def noConnection_def refreshFiltersIfNecessary_def refreshFiltersArray_def
      getFilters_def FilterRefreshForce_def FilterRefreshAllowlists_def
      FilterRefreshBlocklists_def update_def updateIntl_def download_def Chtimes_def
      zeroTime_def Let_def)

lemma bothLists_flag: "refreshStatus bothLists = 0" "FiltersUpdateIntervalHours bothLists = 24"
  "bothLists\<lparr> refreshStatus := 0 \<rparr> = bothLists"
  by (simp_all add: bothLists_def firstRun_def)

theorem refreshFilters_already_running_witness:
  "refreshFilters 6 False offline offline (bothLists\<lparr> refreshStatus := 1 \<rparr>)
     = ((0, Some ErrAlreadyRunning), bothLists\<lparr> refreshStatus := 1 \<rparr>) \<and>
   refreshFilters 6 True offline offline (bothLists\<lparr> refreshStatus := 1 \<rparr>)
     = ((0, None), bothLists) \<and>
   refreshFilters 6 False offline offline bothLists = ((0, None), bothLists) \<and>
   snd (fst (refreshFiltersIfNecessary 6 offline offline (bothLists\<lparr> refreshStatus := 1 \<rparr>)))"
  using refreshFilters_already_running [of 6 False offline offline "bothLists\<lparr> refreshStatus := 1 \<rparr>"]
        refreshFilters_already_running [of 6 True offline offline "bothLists\<lparr> refreshStatus := 1 \<rparr>"]
        refreshFilters_already_running [of 6 False offline offline bothLists]
  by (simp add: offline_cycle CompareAndSwap01_def bothLists_flag)

lemma offline_round: "periodicRound (offline, offline) (bothLists, i) =
   (bothLists, if i * 2 > maxInterval then maxInterval else i * 2)"
  by (simp add: periodicRound_def CompareAndSwap01_def bothLists_flag offline_cycle
      FilterRefreshAllowlists_def FilterRefreshBlocklists_def)

theorem scheduler_backoff_witness:
  "snd (periodicallyRefreshFilters [(offline, offline)] bothLists) = 10 \<and>
   snd (periodicallyRefreshFilters ([(offline, offline)] @ [(offline, offline)]) bothLists) = 20 \<and>
   cycleRuns (fst (periodicallyRefreshFilters [(offline, offline)] bothLists)) \<and>
   cycleFails (offline, offline) (fst (periodicallyRefreshFilters [(offline, offline)] bothLists))"
  using scheduler_backoff [of "[(offline, offline)]" bothLists "(offline, offline)"]
  by (simp add: periodicallyRefreshFilters_def offline_round initialInterval_def maxInterval_def
      cycleRuns_def cycleFails_def bothLists_flag offline_cycle
      FilterRefreshAllowlists_def FilterRefreshBlocklists_def)

section \<open>Properties of the start-up numbering\<close>

lemma load_ID: "ID (snd (load fs f)) = ID f"
  by (simp add: load_def split: option.splits prod.splits)

lemma loadFilters_append:
  "loadFilters fs (a @ b) n =
     (case loadFilters fs a n of (o1, n1) \<Rightarrow>
        (case loadFilters fs b n1 of (o2, n2) \<Rightarrow> (o1 @ o2, n2)))"
  by (induction a arbitrary: n) (auto simp: assignUniqueFilterID_def split: prod.splits)

lemma loadFilters_ids:
  "loadFilters fs arr n = (out, n') \<Longrightarrow>
     n \<le> n' \<and> (\<forall>x \<in> set (map ID out). (x \<noteq> 0 \<and> x \<in> ID ` set arr) \<or> (n \<le> x \<and> x < n'))"
proof (induction arr arbitrary: n out n')
  case Nil then show ?case by simp
next
  case (Cons f arr)
  obtain f1 n1 where a: "(if ID f = 0 then (case assignUniqueFilterID n of (v, next1) \<Rightarrow> (f\<lparr> ID := v \<rparr>, next1)) else (f, n)) = (f1, n1)"
    by (metis surj_pair)
  obtain rest n2 where r: "loadFilters fs arr n1 = (rest, n2)" by (metis surj_pair)
  from Cons.prems a r have out: "out = (if \<not> Enabled f1 then f1 else snd (load fs f1)) # rest" and n': "n' = n2"
    by auto
  from Cons.IH [OF r] have ih: "n1 \<le> n2" "\<forall>x \<in> set (map ID rest). (x \<noteq> 0 \<and> x \<in> ID ` set arr) \<or> (n1 \<le> x \<and> x < n2)"
    by auto
  from a have c: "(ID f = 0 \<and> ID f1 = n \<and> n1 = n + 1) \<or> (ID f \<noteq> 0 \<and> ID f1 = ID f \<and> n1 = n)"
    by (auto simp: assignUniqueFilterID_def split: if_splits)
  have h: "ID (if \<not> Enabled f1 then f1 else snd (load fs f1)) = ID f1" by (simp add: load_ID)
  show ?case unfolding out n' using ih c h by auto
qed

lemma loadFilters_distinct:
  "loadFilters fs arr n = (out, n') \<Longrightarrow>
   distinct (filter (\<lambda>x. x \<noteq> 0) (map ID arr)) \<Longrightarrow> \<forall>f \<in> set arr. ID f < n \<Longrightarrow>
   distinct (map ID out)"
proof (induction arr arbitrary: n out n')
  case Nil then show ?case by simp
next
  case (Cons f arr)
  obtain f1 n1 where a: "(if ID f = 0 then (case assignUniqueFilterID n of (v, next1) \<Rightarrow> (f\<lparr> ID := v \<rparr>, next1)) else (f, n)) = (f1, n1)"
    by (metis surj_pair)
  obtain rest n2 where r: "loadFilters fs arr n1 = (rest, n2)" by (metis surj_pair)
  from Cons.prems(1) a r have out: "out = (if \<not> Enabled f1 then f1 else snd (load fs f1)) # rest"
    by auto
  from a have c: "(ID f = 0 \<and> ID f1 = n \<and> n1 = n + 1) \<or> (ID f \<noteq> 0 \<and> ID f1 = ID f \<and> n1 = n)"
    by (auto simp: assignUniqueFilterID_def split: if_splits)
  have h: "ID (if \<not> Enabled f1 then f1 else snd (load fs f1)) = ID f1" by (simp add: load_ID)
  from c Cons.prems(3) have lt: "\<forall>g \<in> set arr. ID g < n1" by auto
  from Cons.prems(2) have d: "distinct (filter (\<lambda>x. x \<noteq> 0) (map ID arr))" by (simp split: if_splits)
  from Cons.IH [OF r d lt] have dr: "distinct (map ID rest)" .
  from loadFilters_ids [OF r] have ids: "\<forall>x \<in> set (map ID rest). (x \<noteq> 0 \<and> x \<in> ID ` set arr) \<or> (n1 \<le> x \<and> x < n2)"
    by auto
  have "ID f1 \<notin> set (map ID rest)"
  proof
    assume m: "ID f1 \<in> set (map ID rest)"
    with ids have "(ID f1 \<noteq> 0 \<and> ID f1 \<in> ID ` set arr) \<or> (n1 \<le> ID f1 \<and> ID f1 < n2)" by blast
    with c Cons.prems(2,3) show False by (auto split: if_splits)
  qed
  with dr h show ?case unfolding out by simp
qed

lemma dedupLoop_subset: "set (dedupLoop urls fs) \<subseteq> set fs"
  by (induction fs arbitrary: urls) (auto split: option.splits)

lemma dedupLoop_distinct:
  "distinct (map ID (fs @ rest)) \<Longrightarrow> distinct (map ID (dedupLoop urls fs @ rest))"
proof (induction fs arbitrary: urls)
  case Nil then show ?case by simp
next
  case (Cons f fs)
  then have d: "distinct (map ID (fs @ rest))" by simp
  show ?case
  proof (cases "urls (URL f)")
    case None
    define u' where "u' = urls(URL f \<mapsto> True)"
    have ih: "distinct (map ID (dedupLoop u' fs @ rest))" by (rule Cons.IH [OF d])
    have sub: "set (dedupLoop u' fs) \<subseteq> set fs" by (rule dedupLoop_subset)
    from Cons.prems have "ID f \<notin> ID ` set (fs @ rest)" by auto
    with sub have nin: "ID f \<notin> ID ` set (dedupLoop u' fs @ rest)" by auto
    have eq: "dedupLoop urls (f # fs) = f # dedupLoop u' fs" using None by (simp add: u'_def)
    show ?thesis unfolding eq using ih nin by auto
  next
    case (Some b)
    with Cons.IH [OF d, of urls] show ?thesis by simp
  qed
qed

lemma updateUniqueFilterID_ge: "n \<le> updateUniqueFilterID fs n"
proof (induction fs arbitrary: n)
  case Nil show ?case by simp
next
  case (Cons f fs)
  have "n \<le> (if n < ID f then ID f + 1 else n)" by simp
  also have "\<dots> \<le> updateUniqueFilterID fs (if n < ID f then ID f + 1 else n)" by (rule Cons.IH)
  finally show ?case by simp
qed

text \<open>
  Claim C9, as the code has it. If the persisted non-zero identifiers are pairwise
  distinct across both collections and every persisted identifier is below the value of
  the counter at process start, then after \<open>initFiltering\<close> all identifiers are pairwise
  distinct across the union of the two collections, and the counter is above all of them.
\<close>

theorem initFiltering_distinct_ids:
  assumes "distinct (filter (\<lambda>x. x \<noteq> 0) (map ID (Filters st @ WhitelistFilters st)))"
    and "\<forall>f \<in> set (Filters st @ WhitelistFilters st). ID f < nextFilterID st"
  shows "distinct (map ID (Filters (initFiltering st) @ WhitelistFilters (initFiltering st))) \<and>
         (\<forall>f \<in> set (Filters (initFiltering st) @ WhitelistFilters (initFiltering st)).
            ID f < nextFilterID (initFiltering st))"
proof -
  obtain bl n1 where b: "loadFilters (disk st) (Filters st) (nextFilterID st) = (bl, n1)" by (metis surj_pair)
  obtain wl n2 where w: "loadFilters (disk st) (WhitelistFilters st) n1 = (wl, n2)" by (metis surj_pair)
  have both: "loadFilters (disk st) (Filters st @ WhitelistFilters st) (nextFilterID st) = (bl @ wl, n2)"
    by (simp add: loadFilters_append b w)
  from loadFilters_distinct [OF both assms] have d: "distinct (map ID (bl @ wl))" .
  from loadFilters_ids [OF both] assms(2) have lt: "\<forall>x \<in> set (map ID (bl @ wl)). x < n2"
    by fastforce
  let ?bl = "dedupLoop Map.empty bl"
  have F: "Filters (initFiltering st) = ?bl" and W: "WhitelistFilters (initFiltering st) = wl"
    and N: "nextFilterID (initFiltering st) = updateUniqueFilterID wl (updateUniqueFilterID ?bl n2)"
    by (simp_all add: initFiltering_def b w deduplicateFilters_def Let_def)
  have ge: "n2 \<le> nextFilterID (initFiltering st)"
    unfolding N using updateUniqueFilterID_ge [of n2 ?bl]
      updateUniqueFilterID_ge [of "updateUniqueFilterID ?bl n2" wl] by linarith
  have "distinct (map ID (?bl @ wl))" by (rule dedupLoop_distinct [OF d])
  moreover have "\<forall>f \<in> set (?bl @ wl). ID f < nextFilterID (initFiltering st)"
  proof
    fix f assume "f \<in> set (?bl @ wl)"
    with dedupLoop_subset [of Map.empty bl] have "f \<in> set (bl @ wl)" by auto
    then have "ID f \<in> set (map ID (bl @ wl))" by (simp only: set_map) (rule imageI)
    with lt have "ID f < n2" by blast
    with ge show "ID f < nextFilterID (initFiltering st)" by linarith
  qed
  ultimately show ?thesis by (simp only: F W) 
qed

text \<open>
  Without the two conditions the identifiers need not be distinct: identifiers that are
  equal in the persisted configuration stay equal, since only the identifier 0 is replaced.
\<close>

theorem initFiltering_distinct_ids_counterexample:
  "\<not> distinct (map ID (Filters (initFiltering sameIds) @ WhitelistFilters (initFiltering sameIds)))"
  by (simp add: sameIds_def firstRun_def defaultFilters_def zeroFilter_def exampleList_def
      initFiltering_def deduplicateFilters_def load_def assignUniqueFilterID_def Let_def)

theorem initFiltering_distinct_ids_witness:
  "map ID (Filters (initFiltering newEntries) @ WhitelistFilters (initFiltering newEntries))
     = [1, 2, 3, 4, 1600000000, 1600000001] \<and>
   distinct (map ID (Filters (initFiltering newEntries) @ WhitelistFilters (initFiltering newEntries))) \<and>
   nextFilterID (initFiltering newEntries) = 1600000002"
  using initFiltering_distinct_ids [of newEntries]
  by (simp add: newEntries_def firstRun_def defaultFilters_def zeroFilter_def exampleList_def
      initFiltering_def deduplicateFilters_def load_def assignUniqueFilterID_def Let_def)

section \<open>Properties of the content check\<close>

lemma isPrintableText_iff: "isPrintableText s \<longleftrightarrow> (\<forall>c \<in> set s. allowedByte c)"
  by (induction s) (auto simp: allowedByte_def)

lemma indexFrom_absent: "c \<in> set sub \<Longrightarrow> c \<notin> set s \<Longrightarrow> indexFrom i s sub = - 1"
proof (induction s arbitrary: i)
  case Nil then show ?case by auto
next
  case (Cons a s)
  from Cons.prems have "\<not> prefix sub (a # s)"
    by (metis set_mono_prefix subsetD)
  with Cons show ?case by simp
qed

lemma Index_absent: "c \<in> set sub \<Longrightarrow> c \<notin> set s \<Longrightarrow> \<not> Index s sub \<ge> 0"
  by (simp add: Index_def indexFrom_absent)

lemma readLoop_checked:
  "readLoop rs final False got tmp \<noteq> Inl ErrNonPrintable \<and>
   readLoop rs final False got tmp \<noteq> Inl ErrHTML"
proof (induction rs arbitrary: got tmp)
  case Nil
  obtain buf e wok where f: "final = (buf, e, wok)" by (metis prod_cases3)
  show ?case unfolding f by (simp add: gather_def)
next
  case (Cons r rs)
  obtain buf wok where r: "r = (buf, wok)" by (metis surj_pair)
  show ?case unfolding r using Cons.IH by (simp add: gather_def)
qed

lemma gather_full:
  assumes "length got + length buf \<ge> firstChunkSize" "length got < firstChunkSize"
  shows "gather True got buf eof =
           (if \<not> isPrintableText (take firstChunkSize (got @ buf)) then Inl ErrNonPrintable
            else if Index (ToLower (take firstChunkSize (got @ buf))) ''<html'' \<ge> 0 \<or>
                    Index (ToLower (take firstChunkSize (got @ buf))) ''<!doctype'' \<ge> 0
                 then Inl ErrHTML
                 else Inr (False, []))"
proof -
  have l: "length (got @ take (firstChunkSize - length got) buf) = firstChunkSize"
    using assms by simp
  have t: "got @ take (firstChunkSize - length got) buf = take firstChunkSize (got @ buf)"
    using assms by simp
  have l': "length (take firstChunkSize (got @ buf)) = firstChunkSize"
    using assms by simp
  have b: "firstChunkBuf (take firstChunkSize (got @ buf)) = take firstChunkSize (got @ buf)"
    by (simp only: firstChunkBuf_def l' diff_self_eq_0 replicate_0 append_Nil2)
  show ?thesis
    by (simp only: gather_def Let_def t l' b if_True simp_thms)
qed

lemma gather_partial:
  assumes "length got + length buf < firstChunkSize"
  shows "gather True got buf False = Inr (True, got @ buf)"
  using assms by (simp add: gather_def Let_def)

lemma readLoop_sample:
  assumes "length got < firstChunkSize"
    and "firstChunkSize \<le> length got + length (concat (map fst rs) @ fst final)"
  shows "(readLoop rs final True got tmp = Inl ErrNonPrintable \<longrightarrow>
            \<not> isPrintableText (take firstChunkSize (got @ concat (map fst rs) @ fst final))) \<and>
         (\<not> isPrintableText (take firstChunkSize (got @ concat (map fst rs) @ fst final)) \<longrightarrow>
            (\<exists>e. readLoop rs final True got tmp = Inl e) \<and>
            ((\<forall>r \<in> set rs. snd r) \<longrightarrow> readLoop rs final True got tmp = Inl ErrNonPrintable))"
  using assms
proof (induction rs arbitrary: got tmp)
  case Nil
  obtain buf e wok where f: "final = (buf, e, wok)" by (metis prod_cases3)
  from Nil have full: "length got + length buf \<ge> firstChunkSize" by (simp add: f)
  show ?case unfolding f
    by (simp add: gather_full [OF full Nil(1)])
next
  case (Cons r rs)
  obtain buf wok where r: "r = (buf, wok)" by (metis surj_pair)
  show ?case
  proof (cases "length got + length buf \<ge> firstChunkSize")
    case True
    have tk: "take firstChunkSize (got @ concat (map fst (r # rs)) @ fst final)
              = take firstChunkSize (got @ buf)"
      using True by (simp add: r)
    show ?thesis unfolding tk unfolding r
      using readLoop_checked [of rs final "[]" "tmp @ buf"]
      by (simp add: gather_full [OF True Cons.prems(1)])
  next
    case False
    then have lt: "length (got @ buf) < firstChunkSize" by simp
    from Cons.prems(2) have ge: "firstChunkSize \<le> length (got @ buf) + length (concat (map fst rs) @ fst final)"
      by (simp add: r)
    have g: "gather True got buf False = Inr (True, got @ buf)"
      using False by (intro gather_partial) simp
    from Cons.IH [OF lt ge, of "tmp @ buf"]
    show ?thesis unfolding r by (simp add: g)
  qed
qed

text \<open>
  Claim C2, as the code has it, for a body of at least 4 KiB. The printable-text check
  looks at the first 4096 bytes of the body and at nothing else. It refuses a byte below
  0x20 other than CR, LF and TAB, and the byte 0x7F; every byte from 0x80 on is accepted,
  as are the printable ASCII bytes. A fetch never fails with the non-printable error when
  the first 4096 bytes hold accepted bytes only; when they hold a refused byte the fetch
  fails, and it fails with the non-printable error if the request got its 200 response
  and the writes to the temporary file succeeded up to then.
\<close>

theorem printable_check_on_full_sample:
  assumes "firstChunkSize \<le> length (bodyBytes w)"
  shows "(download w = Inl ErrNonPrintable \<longrightarrow>
            (\<exists>c \<in> set (take firstChunkSize (bodyBytes w)). \<not> allowedByte c)) \<and>
         ((\<exists>c \<in> set (take firstChunkSize (bodyBytes w)). \<not> allowedByte c) \<longrightarrow>
            (\<exists>e. download w = Inl e) \<and>
            (tmpFileOK w \<and> getOK w \<and> statusCode w = 200 \<and> (\<forall>r \<in> set (reads w). snd r)
               \<longrightarrow> download w = Inl ErrNonPrintable))"
proof -
  have n: "(0::nat) < firstChunkSize" by (simp add: firstChunkSize_def)
  from assms have ge: "firstChunkSize \<le> length ([]::string) + length (concat (map fst (reads w)) @ fst (lastRead w))"
    by (simp add: bodyBytes_def)
  have n': "length ([]::string) < firstChunkSize" using n by simp
  note s = readLoop_sample [OF n' ge, of "[]", unfolded append_Nil, folded bodyBytes_def,
      unfolded isPrintableText_iff]
  show ?thesis
    using s by (auto simp: download_def)
qed

text \<open>
  The claim as first stated fails on a body that starts with the UTF-8 encoding of a
  letter outside ASCII: the byte 0xC3 is not printable ASCII, and the fetch passes.
\<close>

lemma take_utf8: "take firstChunkSize utf8Body = utf8Body"
  by (simp add: utf8Body_def firstChunkSize_def)

lemma set_utf8: "set utf8Body = {CHR 0xC3, CHR 0xA9, CHR ''a''}"
  by (auto simp: utf8Body_def)

lemma download_utf8: "download utf8Response = Inr utf8Body"
proof -
  have l: "firstChunkSize \<le> length ([]::string) + length utf8Body" "length ([]::string) < firstChunkSize"
    by (simp_all add: utf8Body_def firstChunkSize_def)
  have p: "isPrintableText utf8Body"
    by (simp add: isPrintableText_iff set_utf8 allowedByte_def)
  have lt: "CHR ''<'' \<notin> set (ToLower utf8Body)"
    by (simp add: ToLower_def set_utf8 toLowerByte_def)
  have h: "\<not> Index (ToLower utf8Body) ''<html'' \<ge> 0" "\<not> Index (ToLower utf8Body) ''<!doctype'' \<ge> 0"
    by (rule Index_absent [OF _ lt], simp)+
  show ?thesis
    using p h
    by (simp add: download_def utf8Response_def gather_full [OF l] take_utf8)
qed

lemma bodyBytes_utf8: "bodyBytes utf8Response = utf8Body"
  by (simp add: bodyBytes_def utf8Response_def)

theorem printable_check_counterexample:
  "download utf8Response = Inr utf8Body \<and>
   CHR 0xC3 \<in> set (take firstChunkSize (bodyBytes utf8Response)) \<and>
   \<not> printableASCII (CHR 0xC3)"
  by (simp add: download_utf8 bodyBytes_utf8 take_utf8 set_utf8 printableASCII_def)

theorem printable_check_on_full_sample_witness:
  "firstChunkSize \<le> length (bodyBytes binaryResponse) \<and>
   download binaryResponse = Inl ErrNonPrintable \<and>
   firstChunkSize \<le> length (bodyBytes utf8Response) \<and>
   download utf8Response \<noteq> Inl ErrNonPrintable"
proof -
  have b: "firstChunkSize \<le> length (bodyBytes binaryResponse)"
    by (simp add: bodyBytes_def binaryResponse_def firstChunkSize_def)
  have u: "firstChunkSize \<le> length (bodyBytes utf8Response)"
    by (simp add: bodyBytes_def utf8Response_def utf8Body_def firstChunkSize_def)
  have bad: "CHR 0x01 \<in> set (take firstChunkSize (bodyBytes binaryResponse))"
    by (simp add: bodyBytes_def binaryResponse_def firstChunkSize_def)
  have nb: "\<not> allowedByte (CHR 0x01)" by (simp add: allowedByte_def)
  have ok: "tmpFileOK binaryResponse \<and> getOK binaryResponse \<and> statusCode binaryResponse = 200 \<and>
            (\<forall>r \<in> set (reads binaryResponse). snd r)"
    by (simp add: binaryResponse_def)
  have good: "\<not> (\<exists>c \<in> set (take firstChunkSize (bodyBytes utf8Response)). \<not> allowedByte c)"
    by (simp add: bodyBytes_utf8 take_utf8 set_utf8 allowedByte_def)
  from printable_check_on_full_sample [OF b] bad nb ok
  have 1: "download binaryResponse = Inl ErrNonPrintable" by blast
  from printable_check_on_full_sample [OF u] good
  have 2: "download utf8Response \<noteq> Inl ErrNonPrintable" by blast
  from b u 1 2 show ?thesis by simp
qed

section \<open>Properties of \<open>parseFilterContents\<close>\<close>

lemma simpleUpdate_append: "simpleUpdate c (a @ b) = simpleUpdate (simpleUpdate c a) b"
  by (induction a arbitrary: c) auto

lemma crc32Update_append: "crc32Update (crc32Update c a) b = crc32Update c (a @ b)"
  by (simp add: crc32Update_def simpleUpdate_append)

lemma crc32Update_Nil: "crc32Update c [] = c"
  by (simp add: crc32Update_def)

lemma ReadString_None: "ReadString r = None \<longleftrightarrow> CHR 0x0A \<notin> set r"
  by (induction r) (auto split: option.splits)

lemma ReadString_Some:
  "ReadString r = Some (l, rest) \<Longrightarrow>
     r = l @ rest \<and> l = butlast l @ [CHR 0x0A] \<and> CHR 0x0A \<notin> set (butlast l) \<and>
     textLines r = butlast l # textLines rest"
proof (induction r arbitrary: l rest)
  case Nil then show ?case by simp
next
  case (Cons c cs)
  show ?case
  proof (cases "c = CHR 0x0A")
    case True with Cons.prems show ?thesis by auto
  next
    case False
    with Cons.prems obtain l' where r: "ReadString cs = Some (l', rest)" and l: "l = c # l'"
      by (auto split: option.splits)
    from Cons.IH [OF r] have ih: "cs = l' @ rest" "l' = butlast l' @ [CHR 0x0A]"
      "CHR 0x0A \<notin> set (butlast l')" "textLines cs = butlast l' # textLines rest" by auto
    from ih(2) have ne: "l' \<noteq> []" by auto
    show ?thesis unfolding l using ih False ne by (auto simp: butlast_append)
  qed
qed

lemma terminated_rest: "terminated (l @ rest) \<Longrightarrow> terminated rest"
  by (cases "rest = []") (auto simp: terminated_def)

lemma terminated_no_newline: "terminated r \<Longrightarrow> CHR 0x0A \<notin> set r \<Longrightarrow> r = []"
  by (auto simp: terminated_def) (metis last_in_set)


lemma prefix_snoc_newline:
  assumes "CHR 0x0A \<notin> set r"
  shows "prefix r (x @ [CHR 0x0A]) \<longleftrightarrow> prefix r x"
proof
  assume "prefix r (x @ [CHR 0x0A])"
  then consider "prefix r x" | us where "r = x @ us" "prefix us [CHR 0x0A]"
    by (auto simp: prefix_append)
  then show "prefix r x"
  proof cases
    case 1 then show ?thesis .
  next
    case 2
    from 2(2) have "us = [] \<or> us = [CHR 0x0A]" by (cases us) auto
    with 2(1) assms show ?thesis by auto
  qed
qed auto

lemma spaceRunes_prefix_snoc:
  assumes "x \<noteq> []" "r \<in> set spaceRunes"
  shows "(r \<noteq> [] \<and> prefix r (x @ [CHR 0x0A])) \<longleftrightarrow> (r \<noteq> [] \<and> prefix r x)"
proof (cases "r = [CHR 0x0A]")
  case True
  with assms(1) show ?thesis by (cases x) auto
next
  case False
  with assms(2) have h: "CHR 0x0A \<notin> set r" by (auto simp: spaceRunes_def)
  show ?thesis by (simp only: prefix_snoc_newline [OF h])
qed

lemma find_spaceRunes_snoc:
  assumes "x \<noteq> []"
  shows "find (\<lambda>r. r \<noteq> [] \<and> prefix r (x @ [CHR 0x0A])) spaceRunes
       = find (\<lambda>r. r \<noteq> [] \<and> prefix r x) spaceRunes"
  by (rule find_cong [OF refl]) (rule spaceRunes_prefix_snoc [OF assms])

lemma trimRunes_Nil: "trimRunes rs [] = []"
proof -
  have "find (\<lambda>r. r \<noteq> [] \<and> prefix r []) rs = None"
    by (auto simp: find_None_iff)
  then show ?thesis by (subst trimRunes.simps) simp
qed

lemma trimLeft_newline: "trimRunes spaceRunes [CHR 0x0A] = []"
  by (subst trimRunes.simps) (simp add: spaceRunes_def trimRunes_Nil)

lemma trimLeft_snoc:
  "trimRunes spaceRunes (x @ [CHR 0x0A]) =
     (if trimRunes spaceRunes x = [] then [] else trimRunes spaceRunes x @ [CHR 0x0A])"
proof (induction spaceRunes x rule: trimRunes.induct)
  case (1 s)
  show ?case
  proof (cases "s = []")
    case True
    then show ?thesis by (simp add: trimLeft_newline trimRunes_Nil)
  next
    case False
    note f = find_spaceRunes_snoc [OF False]
    show ?thesis
    proof (cases "find (\<lambda>r. r \<noteq> [] \<and> prefix r s) spaceRunes")
      case None
      have a: "trimRunes spaceRunes s = s" using None by (subst trimRunes.simps) simp
      have b: "trimRunes spaceRunes (s @ [CHR 0x0A]) = s @ [CHR 0x0A]"
        using None f by (subst trimRunes.simps) simp
      show ?thesis unfolding a b using False by simp
    next
      case (Some r)
      then have p: "prefix r s" by (auto simp: find_Some_iff)
      then have d: "drop (length r) (s @ [CHR 0x0A]) = drop (length r) s @ [CHR 0x0A]"
        by (simp add: prefix_length_le)
      have a: "trimRunes spaceRunes s = trimRunes spaceRunes (drop (length r) s)"
        using Some by (subst trimRunes.simps) simp
      have b: "trimRunes spaceRunes (s @ [CHR 0x0A]) = trimRunes spaceRunes (drop (length r) s @ [CHR 0x0A])"
        using Some f d by (subst trimRunes.simps) simp
      show ?thesis unfolding a b by (rule "1.hyps" [OF Some])
    qed
  qed
qed

lemma trimRight_newline:
  "trimRunes (map rev spaceRunes) (CHR 0x0A # z) = trimRunes (map rev spaceRunes) z"
  by (subst trimRunes.simps) (simp add: spaceRunes_def)

lemma TrimSpace_snoc_newline: "TrimSpace (x @ [CHR 0x0A]) = TrimSpace x"
  by (simp add: TrimSpace_def trimLeft_snoc trimRight_newline trimRunes_Nil)


lemma filterTitleRegexp_bang: "filterTitleRegexp t = Some m \<Longrightarrow> t \<noteq> [] \<and> hd t = CHR ''!''"
  by (auto simp: filterTitleRegexp_def prefix_def split: if_splits)

lemma parseLoop_terminated:
  "terminated r \<Longrightarrow>
   parseLoop r n name seen c =
     (n + int (length (filter ruleLine (trimmedLines r))), crc32Update c r,
      if seen then name
      else (case List.map_filter filterTitleRegexp (trimmedLines r) of [] \<Rightarrow> name | t # _ \<Rightarrow> t))"
proof (induction r arbitrary: n name seen c rule: length_induct)
  case (1 r)
  show ?case
  proof (cases "ReadString r")
    case None
    then have "r = []" using "1.prems" by (simp add: ReadString_None terminated_no_newline)
    then show ?thesis
      by (subst parseLoop.simps) (simp add: trimmedLines_def crc32Update_Nil List.map_filter_simps)
  next
    case (Some p)
    obtain l rest where p: "p = (l, rest)" by (metis surj_pair)
    note rs = ReadString_Some [OF Some [unfolded p]]
    define x where "x = butlast l"
    define t where "t = TrimSpace x"
    from rs have r: "r = l @ rest" by blast
    from rs have l: "l = x @ [CHR 0x0A]" unfolding x_def by blast
    from rs have tl: "textLines r = x # textLines rest" unfolding x_def by blast
    have tr: "terminated rest" using "1.prems" unfolding r by (rule terminated_rest)
    have len: "length rest < length r" unfolding r l by simp
    have ts: "TrimSpace l = t" unfolding l t_def by (rule TrimSpace_snoc_newline)
    have lines: "trimmedLines r = t # trimmedLines rest"
      by (simp add: trimmedLines_def tl t_def)
    have crc: "crc32Update (crc32Update c l) rest = crc32Update c r"
      unfolding r by (rule crc32Update_append)
    note ih = "1.IH" [rule_format, OF len tr]
    show ?thesis
    proof (cases "t = []")
      case True
      then have "filterTitleRegexp t = None" by (simp add: filterTitleRegexp_def)
      with True show ?thesis
        by (subst parseLoop.simps)
           (simp add: Some p ts ih lines crc ruleLine_def List.map_filter_simps)
    next
      case False
      show ?thesis
      proof (cases "hd t = CHR ''!''")
        case True
        then show ?thesis using False
          by (subst parseLoop.simps)
             (simp add: Some p ts ih lines crc ruleLine_def List.map_filter_simps
                split: option.splits)
      next
        case False
        then have "filterTitleRegexp t = None"
          using filterTitleRegexp_bang [of t] by (cases "filterTitleRegexp t") auto
        with False \<open>t \<noteq> []\<close> show ?thesis
          by (subst parseLoop.simps)
             (simp add: Some p ts ih lines crc ruleLine_def List.map_filter_simps)
      qed
    qed
  qed
qed

text \<open>
  Claim C3, as the code has it, for a body in which every line ends with a newline (an
  empty body included). The parse step computes the CRC32 of the entire byte stream of the
  body; the rule count is the number of lines that, with the white space around them
  trimmed, are not empty and do not start with \<open>!\<close>; and the display name is the
  submatch of the first trimmed line matching \<open>^! Title: +(.*)$\<close> (the empty name if
  there is none), later title lines being ignored.
\<close>

theorem parse_terminated_body:
  assumes "terminated body"
  shows "parseFilterContents body =
           (int (length (filter ruleLine (trimmedLines body))), ChecksumIEEE body,
            firstTitle (trimmedLines body))"
  using parseLoop_terminated [OF assms, of 0 "[]" False 0]
  by (simp add: parseFilterContents_def ChecksumIEEE_def firstTitle_def)

text \<open>
  A response that is one read of at least 4 KiB of accepted bytes, none of them
  \<open><\<close>, ending the stream, is downloaded whole.
\<close>

lemma toLowerByte_lt: "c \<noteq> CHR ''<'' \<Longrightarrow> toLowerByte c \<noteq> CHR ''<''"
proof (cases "(65::nat) \<le> of_char c \<and> of_char c \<le> (90::nat)")
  case True
  then have "of_char (toLowerByte c) = (of_char c + 32 :: nat)"
    by (simp add: toLowerByte_def)
  with True have ne: "of_char (toLowerByte c) \<noteq> (60::nat)" by linarith
  show ?thesis
  proof
    assume "toLowerByte c = CHR ''<''"
    then have "(of_char (toLowerByte c) :: nat) = of_char (CHR ''<'')" by (rule arg_cong)
    also have "\<dots> = 60" by simp
    finally show False using ne by simp
  qed
next
  case False
  assume "c \<noteq> CHR ''<''"
  moreover from False have "toLowerByte c = c" unfolding toLowerByte_def by (rule if_not_P)
  ultimately show ?thesis by simp
qed

lemma download_single_read:
  assumes "tmpFileOK w" "getOK w" "statusCode w = 200" "reads w = []"
    and "lastRead w = (body, EOF, True)" and "firstChunkSize \<le> length body"
    and "\<forall>c \<in> set body. allowedByte c" and "CHR ''<'' \<notin> set body"
  shows "download w = Inr body"
proof -
  let ?s = "take firstChunkSize ([] @ body)"
  have l: "firstChunkSize \<le> length ([]::string) + length body" "length ([]::string) < firstChunkSize"
    using assms(6) by (simp_all add: firstChunkSize_def)
  have sub: "set ?s \<subseteq> set body" by (simp add: set_take_subset)
  have p: "isPrintableText ?s"
    unfolding isPrintableText_iff using assms(7) sub by blast
  have lt: "CHR ''<'' \<notin> set (ToLower ?s)"
  proof
    assume "CHR ''<'' \<in> set (ToLower ?s)"
    then obtain c where c: "c \<in> set ?s" "toLowerByte c = CHR ''<''"
      unfolding ToLower_def set_map by (metis imageE)
    with toLowerByte_lt have "c = CHR ''<''" by blast
    with c(1) sub assms(8) show False by blast
  qed
  have h1: "\<not> Index (ToLower ?s) ''<html'' \<ge> 0"
    by (rule Index_absent [OF _ lt]) simp
  have h2: "\<not> Index (ToLower ?s) ''<!doctype'' \<ge> 0"
    by (rule Index_absent [OF _ lt]) simp
  have g: "gather True [] body eof = Inr (False, [])" for eof
    unfolding gather_full [OF l] using p h1 h2 by simp
  have r: "readLoop [] (body, EOF, True) True [] [] = Inr body"
    by (simp add: g)
  show ?thesis
    unfolding download_def using assms(1-5) r by simp
qed

text \<open>
  The claim as first stated counts the lines as they are in the body and looks for the
  title in them. On a downloaded list whose title line is indented, the code counts one
  rule and finds the title, while the untrimmed lines give two rules and no title.
\<close>

lemma textLines_line:
  "CHR 0x0A \<notin> set x \<Longrightarrow> textLines (x @ CHR 0x0A # rest) = x # textLines rest"
  by (induction x) auto

lemma trimRunes_plain:
  assumes "s \<noteq> []" "hd s \<notin> hd ` set rs"
  shows "trimRunes rs s = s"
proof -
  have "\<not> (r \<noteq> [] \<and> prefix r s)" if "r \<in> set rs" for r
  proof
    assume a: "r \<noteq> [] \<and> prefix r s"
    then have "hd r = hd s" using assms(1) by (cases r; cases s) auto
    with that assms(2) show False by (metis imageI)
  qed
  then have "find (\<lambda>r. r \<noteq> [] \<and> prefix r s) rs = None"
    by (auto simp: find_None_iff)
  then show ?thesis by (subst trimRunes.simps) simp
qed

lemma TrimSpace_plain:
  assumes "s \<noteq> []" "hd s \<notin> hd ` set spaceRunes" "last s \<notin> hd ` set (map rev spaceRunes)"
  shows "TrimSpace s = s"
proof -
  have a: "trimRunes spaceRunes s = s" by (rule trimRunes_plain [OF assms(1,2)])
  have b: "trimRunes (map rev spaceRunes) (rev s) = rev s"
    using assms(1,3) by (intro trimRunes_plain) (simp_all add: hd_rev)
  show ?thesis by (simp add: TrimSpace_def a b)
qed

lemma TrimSpace_letters: "TrimSpace (replicate 4096 (CHR ''a'')) = replicate 4096 (CHR ''a'')"
  by (rule TrimSpace_plain) (simp_all add: spaceRunes_def)

lemma indented_lines: "textLines indentedBody = ['' ! Title: A'', replicate 4096 (CHR ''a'')]"
proof -
  have e: "indentedBody = '' ! Title: A'' @ CHR 0x0A # (replicate 4096 (CHR ''a'') @ CHR 0x0A # [])"
    by (simp add: indentedBody_def)
  have a: "textLines ('' ! Title: A'' @ CHR 0x0A # R) = '' ! Title: A'' # textLines R" for R
    by (rule textLines_line) simp
  have b: "textLines (replicate 4096 (CHR ''a'') @ CHR 0x0A # []) = replicate 4096 (CHR ''a'') # textLines []"
    by (rule textLines_line) simp
  show ?thesis unfolding e a b by simp
qed

lemma indented_trimmed: "trimmedLines indentedBody = [''! Title: A'', replicate 4096 (CHR ''a'')]"
proof -
  have "TrimSpace '' ! Title: A'' = ''! Title: A''" by code_simp
  then show ?thesis by (simp add: trimmedLines_def indented_lines TrimSpace_letters)
qed

lemma indented_terminated: "terminated indentedBody"
  by (simp add: terminated_def indentedBody_def)

lemma download_indented: "download indentedResponse = Inr indentedBody"
proof (rule download_single_read)
  show "\<forall>c \<in> set indentedBody. allowedByte c"
    by (auto simp: indentedBody_def allowedByte_def)
  show "CHR ''<'' \<notin> set indentedBody" by (auto simp: indentedBody_def)
  show "firstChunkSize \<le> length indentedBody" by (simp add: indentedBody_def firstChunkSize_def)
qed (simp_all add: indentedResponse_def)

theorem parse_untrimmed_counterexample:
  "download indentedResponse = Inr indentedBody \<and>
   fst (parseFilterContents indentedBody) = 1 \<and>
   int (length (filter ruleLine (textLines indentedBody))) = 2 \<and>
   snd (snd (parseFilterContents indentedBody)) = ''A'' \<and>
   firstTitle (textLines indentedBody) = []"
proof -
  have t1: "filterTitleRegexp ''! Title: A'' = Some ''A''" by code_simp
  have t2: "filterTitleRegexp (replicate 4096 (CHR ''a'')) = None"
    using filterTitleRegexp_bang [of "replicate 4096 (CHR ''a'')"]
    by (cases "filterTitleRegexp (replicate 4096 (CHR ''a''))") auto
  have t3: "filterTitleRegexp '' ! Title: A'' = None" by code_simp
  have p: "parseFilterContents indentedBody = (1, crc32Update 0 indentedBody, ''A'')"
    using parseLoop_terminated [OF indented_terminated, of 0 "[]" False 0]
    by (simp add: parseFilterContents_def indented_trimmed ruleLine_def
        List.map_filter_simps t1 t2)
  show ?thesis
    by (simp add: p download_indented indented_lines ruleLine_def firstTitle_def
        List.map_filter_simps t2 t3)
qed

theorem parse_terminated_body_witness:
  "terminated smallList \<and>
   parseFilterContents smallList = (1, ChecksumIEEE smallList, ''My list'')"
proof -
  have t: "terminated smallList" by (simp add: terminated_def smallList_def)
  have l: "trimmedLines smallList = [''! Title:  My list'', ''! Title: later'', [], ''||example.org^'']"
    by code_simp
  have f: "filterTitleRegexp ''! Title:  My list'' = Some ''My list''" by code_simp
  from parse_terminated_body [OF t] t show ?thesis
    by (simp add: l ruleLine_def firstTitle_def List.map_filter_simps f)
qed

section \<open>Properties of the refresh of one collection\<close>

lemma updateIntl_pure:
  "fst (updateIntl w f fs) = fst (updateIntl w f fs0) \<and>
   fst (snd (updateIntl w f fs)) = fst (snd (updateIntl w f fs0))"
  by (simp add: updateIntl_def Let_def split: sum.splits prod.splits)

lemma update_pure:
  "fst (update w f fs) = fst (update w f fs0) \<and>
   fst (snd (update w f fs)) = fst (snd (update w f fs0))"
  using updateIntl_pure [of w f fs fs0]
  by (cases "updateIntl w f fs"; cases "updateIntl w f fs0") (auto simp: update_def Let_def)

lemma updateIntl_keys:
  "ID (fst (snd (updateIntl w f fs))) = ID f \<and> URL (fst (snd (updateIntl w f fs))) = URL f"
  by (simp add: updateIntl_def Let_def split: sum.splits prod.splits)

lemma update_keys:
  "ID (fst (snd (update w f fs))) = ID f \<and> URL (fst (snd (update w f fs))) = URL f \<and>
   LastUpdated (fst (snd (update w f fs))) = clock w"
  using updateIntl_keys [of w f fs]
  by (cases "updateIntl w f fs") (auto simp: update_def Let_def)

lemma updateIntl_error: "snd (fst (updateIntl w f fs)) \<noteq> None \<Longrightarrow> \<not> fst (fst (updateIntl w f fs))"
  by (simp add: updateIntl_def Let_def split: sum.splits prod.splits if_splits)

lemma update_error: "snd (fst (update w f fs)) \<noteq> None \<Longrightarrow> \<not> fst (fst (update w f fs))"
  using updateIntl_error [of w f fs]
  by (cases "updateIntl w f fs") (auto simp: update_def Let_def)

lemma update_unchanged:
  assumes "download w = Inr body" "fst (snd (parseFilterContents body)) = checksum f"
  shows "update w f fs =
           ((False, None), f\<lparr> LastUpdated := clock w \<rparr>, Chtimes fs (ContentFile (ID f)) (clock w))"
proof -
  obtain n c t where p: "parseFilterContents body = (n, c, t)" by (metis prod_cases3)
  with assms(2) have c: "c = checksum f" by simp
  show ?thesis by (simp add: update_def updateIntl_def Let_def assms(1) p c)
qed

lemma commitOne_map: "fst (commitOne uf updated fs) = map (commitF uf updated) fs"
  by (induction fs) (auto simp: commitF_def Let_def split: prod.splits)

lemma commitF_keys: "ID (commitF uf u f) = ID f \<and> URL (commitF uf u f) = URL f"
  by (simp add: commitF_def)

lemma commitAll_map: "fst (commitAll ufs flags fs) = map (commitFs ufs flags) fs"
proof (induction ufs flags fs rule: commitAll.induct)
  case (1 uf ufs updated flags filters)
  obtain fs1 n where a: "commitOne uf updated filters = (fs1, n)" by (metis surj_pair)
  then have fs1: "fs1 = map (commitF uf updated) filters" using commitOne_map [of uf updated filters] by simp
  obtain fs2 m where b: "commitAll ufs flags fs1 = (fs2, m)" by (metis surj_pair)
  from "1" [OF a [symmetric]] b have "fs2 = map (commitFs ufs flags) fs1" by simp
  then have "fs2 = map (commitFs (uf # ufs) (updated # flags)) filters" by (simp add: fs1)
  moreover have "fst (commitAll (uf # ufs) (updated # flags) filters) = fs2"
    by (simp only: commitAll.simps a b prod.case fst_conv)
  ultimately show ?case by simp
qed simp_all

lemma commitFs_keys: "ID (commitFs ufs us f) = ID f \<and> URL (commitFs ufs us f) = URL f"
  by (induction ufs us f rule: commitFs.induct) (simp_all add: commitF_keys)

lemma commitFs_other:
  "\<forall>i < length ufs. ID (ufs ! i) \<noteq> ID f \<or> URL (ufs ! i) \<noteq> URL f \<Longrightarrow> commitFs ufs us f = f"
proof (induction ufs us f rule: commitFs.induct)
  case (1 uf ufs u us f)
  from "1.prems" have h: "ID uf \<noteq> ID f \<or> URL uf \<noteq> URL f" by force
  then have e: "commitF uf u f = f" by (auto simp: commitF_def)
  from "1.prems" have "\<forall>i < length ufs. ID (ufs ! i) \<noteq> ID f \<or> URL (ufs ! i) \<noteq> URL f" by force
  with "1.IH" e show ?case by simp
qed simp_all

lemma commitFs_single:
  assumes "length ufs = length us" "j < length ufs"
    and "\<forall>i < length ufs. i \<noteq> j \<longrightarrow> ID (ufs ! i) \<noteq> ID f \<or> URL (ufs ! i) \<noteq> URL f"
  shows "commitFs ufs us f = commitF (ufs ! j) (us ! j) f"
  using assms
proof (induction ufs us f arbitrary: j rule: commitFs.induct)
  case (1 uf ufs u us f)
  show ?case
  proof (cases j)
    case 0
    from "1.prems"(3) 0 have "\<forall>i < length ufs. ID (ufs ! i) \<noteq> ID f \<or> URL (ufs ! i) \<noteq> URL f"
      by force
    then have "\<forall>i < length ufs. ID (ufs ! i) \<noteq> ID (commitF uf u f) \<or> URL (ufs ! i) \<noteq> URL (commitF uf u f)"
      by (simp add: commitF_keys)
    from commitFs_other [OF this] 0 show ?thesis by simp
  next
    case (Suc j')
    from "1.prems"(3) Suc have h: "ID uf \<noteq> ID f \<or> URL uf \<noteq> URL f" by force
    then have e: "commitF uf u f = f" by (auto simp: commitF_def)
    from "1.prems" Suc have "length ufs = length us" "j' < length ufs"
      "\<forall>i < length ufs. i \<noteq> j' \<longrightarrow> ID (ufs ! i) \<noteq> ID f \<or> URL (ufs ! i) \<noteq> URL f"
      by force+
    from "1.IH" [unfolded e, OF this] Suc e show ?thesis by simp
  qed
qed simp_all

lemma updateAll_nth:
  "updateAll fetches i snap fs = (ufs, flags, nfail, fs') \<Longrightarrow>
     length ufs = length snap \<and> length flags = length snap \<and> nfail \<le> length snap \<and>
     (\<forall>j < length snap.
        ufs ! j = fst (snd (update (fetches (i + j)) (snap ! j) fs0)) \<and>
        flags ! j = fst (fst (update (fetches (i + j)) (snap ! j) fs0))) \<and>
     (nfail = length snap \<longleftrightarrow>
        (\<forall>j < length snap. snd (fst (update (fetches (i + j)) (snap ! j) fs0)) \<noteq> None))"
proof (induction snap arbitrary: i fs ufs flags nfail fs')
  case Nil
  then show ?case by simp
next
  case (Cons uf snap)
  obtain updated err uf1 fs1 where u: "update (fetches i) uf fs = ((updated, err), uf1, fs1)"
    by (metis surj_pair)
  obtain ufs1 flags1 nfail1 fs2 where r: "updateAll fetches (Suc i) snap fs1 = (ufs1, flags1, nfail1, fs2)"
    by (metis surj_pair)
  from Cons.prems u r have res: "ufs = uf1 # ufs1" "flags = updated # flags1"
    "nfail = (if err \<noteq> None then Suc nfail1 else nfail1)"
    by auto
  from update_pure [of "fetches i" uf fs fs0] u
  have p: "fst (update (fetches i) uf fs0) = (updated, err)" "fst (snd (update (fetches i) uf fs0)) = uf1"
    by auto
  note ih = Cons.IH [OF r]
  from ih have len: "length ufs1 = length snap" "length flags1 = length snap" "nfail1 \<le> length snap"
    by auto
  from ih have nth: "\<And>j. j < length snap \<Longrightarrow>
        ufs1 ! j = fst (snd (update (fetches (Suc i + j)) (snap ! j) fs0)) \<and>
        flags1 ! j = fst (fst (update (fetches (Suc i + j)) (snap ! j) fs0))"
    by blast
  from ih have all: "nfail1 = length snap \<longleftrightarrow>
        (\<forall>j < length snap. snd (fst (update (fetches (Suc i + j)) (snap ! j) fs0)) \<noteq> None)"
    by blast
  have a: "\<forall>j < length (uf # snap).
        ufs ! j = fst (snd (update (fetches (i + j)) ((uf # snap) ! j) fs0)) \<and>
        flags ! j = fst (fst (update (fetches (i + j)) ((uf # snap) ! j) fs0))"
  proof (intro allI impI)
    fix j assume "j < length (uf # snap)"
    then show "ufs ! j = fst (snd (update (fetches (i + j)) ((uf # snap) ! j) fs0)) \<and>
        flags ! j = fst (fst (update (fetches (i + j)) ((uf # snap) ! j) fs0))"
      using nth [of "j - 1"] p res by (cases j) auto
  qed
  have b: "(nfail = length (uf # snap)) \<longleftrightarrow>
        (\<forall>j < length (uf # snap). snd (fst (update (fetches (i + j)) ((uf # snap) ! j) fs0)) \<noteq> None)"
  proof -
    have "(\<forall>j < length (uf # snap). snd (fst (update (fetches (i + j)) ((uf # snap) ! j) fs0)) \<noteq> None)
       \<longleftrightarrow> (err \<noteq> None \<and> (\<forall>j < length snap. snd (fst (update (fetches (Suc i + j)) (snap ! j) fs0)) \<noteq> None))"
      using p(1) by (simp add: All_less_Suc2)
    also have "\<dots> \<longleftrightarrow> (err \<noteq> None \<and> nfail1 = length snap)"
      using all by simp
    also have "\<dots> \<longleftrightarrow> nfail = length (uf # snap)"
      using res(3) len(3) by auto
    finally show ?thesis by simp
  qed
  show ?case using res len a b by auto
qed

lemma snapshot_member:
  "uf \<in> set (snapshot force t h fs) \<Longrightarrow>
     \<exists>f \<in> set fs. Enabled f \<and> (force \<or> \<not> LastUpdated f + int h * 60 * 60 > t) \<and>
       uf = zeroFilter\<lparr> ID := ID f, URL := URL f, Name := Name f, checksum := checksum f \<rparr>"
  by (induction fs) (auto split: if_splits)


lemma snapshot_distinct:
  "distinct (map (\<lambda>f. (ID f, URL f)) fs) \<Longrightarrow>
   distinct (map (\<lambda>f. (ID f, URL f)) (snapshot force t h fs))"
proof (induction fs)
  case Nil then show ?case by simp
next
  case (Cons f fs)
  then have d: "distinct (map (\<lambda>f. (ID f, URL f)) (snapshot force t h fs))" by simp
  have "(ID f, URL f) \<notin> set (map (\<lambda>f. (ID f, URL f)) (snapshot force t h fs))"
  proof
    assume "(ID f, URL f) \<in> set (map (\<lambda>f. (ID f, URL f)) (snapshot force t h fs))"
    then obtain uf where uf: "uf \<in> set (snapshot force t h fs)" "ID uf = ID f" "URL uf = URL f"
      by auto
    from snapshot_member [OF uf(1)] obtain g where g: "g \<in> set fs" "ID uf = ID g" "URL uf = URL g"
      by auto
    from g(2) uf(2) have e1: "ID g = ID f" by simp
    from g(3) uf(3) have e2: "URL g = URL f" by simp
    from g(1) have "(ID g, URL g) \<in> (\<lambda>f. (ID f, URL f)) ` set fs" by (rule imageI)
    then have "(ID f, URL f) \<in> (\<lambda>f. (ID f, URL f)) ` set fs" unfolding e1 e2 .
    with Cons.prems show False by simp
  qed
  with d show ?case by (cases force) simp_all
qed

lemma refreshFiltersArray_commit:
  assumes "snap = snapshot force (startTime w) (FiltersUpdateIntervalHours st) (getFilters wl st)"
    and "i < length snap" and "snd (fst (update (fetch w i) (snap ! i) fs')) = None"
    and "updateAll (fetch w) 0 snap (disk st) = (ufs, flags, nfail, fs1)"
  shows "getFilters wl (snd (refreshFiltersArray wl force w st))
           = map (commitFs ufs flags) (getFilters wl st)"
proof -
  from assms(2) have ne: "length snap \<noteq> 0" by auto
  from updateAll_nth [OF assms(4), of fs'] assms(2,3)
  have nf: "nfail \<noteq> length ufs" by auto
  obtain filters n where c: "commitAll ufs flags (getFilters wl st) = (filters, n)" by (metis surj_pair)
  with commitAll_map [of ufs flags "getFilters wl st"]
  have f: "filters = map (commitFs ufs flags) (getFilters wl st)" by simp
  have "snd (refreshFiltersArray wl force w st) = putFilters wl filters (st\<lparr> disk := fs1 \<rparr>)"
    using ne nf
    by (simp add: refreshFiltersArray_def Let_def assms(1) [symmetric] assms(4) c)
  then show ?thesis by (simp add: f putFilters_def getFilters_def)
qed

text \<open>
  Claim C1, as the code has it. Take a refresh of one collection in which at least one
  fetch succeeds, and a collection in which no two filters share both identifier and URL.
  Every snapshotted filter whose fetch failed keeps its rule count, checksum and name, and
  every other field but one: its \<open>LastUpdated\<close> is set to the time of the failed
  attempt, since \<open>update\<close> stamps the snapshot entry whatever \<open>updateIntl\<close>
  returns and the commit loop copies the stamp.
\<close>

theorem failed_fetch_keeps_metadata:
  assumes "distinct (map (\<lambda>f. (ID f, URL f)) (getFilters wl st))"
    and "snap = snapshot force (startTime w) (FiltersUpdateIntervalHours st) (getFilters wl st)"
    and "j < length snap" and "k < length (getFilters wl st)"
    and "ID (snap ! j) = ID (getFilters wl st ! k)" and "URL (snap ! j) = URL (getFilters wl st ! k)"
    and "snd (fst (update (fetch w j) (snap ! j) fs)) \<noteq> None"
    and "i < length snap" and "snd (fst (update (fetch w i) (snap ! i) fs')) = None"
  shows "getFilters wl (snd (refreshFiltersArray wl force w st)) ! k
           = (getFilters wl st ! k)\<lparr> LastUpdated := clock (fetch w j) \<rparr>"
proof -
  let ?f = "getFilters wl st ! k"
  obtain ufs flags nfail fs1 where u: "updateAll (fetch w) 0 snap (disk st) = (ufs, flags, nfail, fs1)"
    by (metis prod_cases4)
  note n = updateAll_nth [OF u, of fs]
  from n have len: "length ufs = length snap" "length flags = length snap" by auto
  from n have nth: "\<And>m. m < length snap \<Longrightarrow> ufs ! m = fst (snd (update (fetch w m) (snap ! m) fs))"
    and fl: "\<And>m. m < length snap \<Longrightarrow> flags ! m = fst (fst (update (fetch w m) (snap ! m) fs))"
    by auto
  have keys: "ID (ufs ! m) = ID (snap ! m) \<and> URL (ufs ! m) = URL (snap ! m)" if "m < length snap" for m
    using nth [OF that] update_keys [of "fetch w m" "snap ! m" fs] by simp
  have d: "distinct (map (\<lambda>f. (ID f, URL f)) snap)"
    unfolding assms(2) by (rule snapshot_distinct [OF assms(1)])
  have other: "\<forall>m < length ufs. m \<noteq> j \<longrightarrow> ID (ufs ! m) \<noteq> ID ?f \<or> URL (ufs ! m) \<noteq> URL ?f"
  proof (intro allI impI)
    fix m assume m: "m < length ufs" "m \<noteq> j"
    with len have ml: "m < length snap" by simp
    from d ml assms(3) m(2) have "(ID (snap ! m), URL (snap ! m)) \<noteq> (ID (snap ! j), URL (snap ! j))"
      by (auto simp: distinct_conv_nth)
    with keys [OF ml] assms(5,6) show "ID (ufs ! m) \<noteq> ID ?f \<or> URL (ufs ! m) \<noteq> URL ?f" by auto
  qed
  have jl: "j < length ufs" using len assms(3) by simp
  have "getFilters wl (snd (refreshFiltersArray wl force w st)) ! k = commitFs ufs flags ?f"
    using refreshFiltersArray_commit [OF assms(2,8,9) u] assms(4) by simp
  also have "\<dots> = commitF (ufs ! j) (flags ! j) ?f"
    by (rule commitFs_single [OF _ jl other]) (simp add: len)
  also have "\<dots> = ?f\<lparr> LastUpdated := LastUpdated (ufs ! j) \<rparr>"
    using keys [OF assms(3)] assms(5,6) fl [OF assms(3)] update_error [OF assms(7)]
    by (simp add: commitF_def)
  also have "LastUpdated (ufs ! j) = clock (fetch w j)"
    using nth [OF assms(3)] update_keys [of "fetch w j" "snap ! j" fs] by simp
  finally show ?thesis .
qed

text \<open>The concrete refresh: the list of letters downloads and parses as one rule.\<close>

lemma download_letters: "download lettersResponse = Inr lettersBody"
proof (rule download_single_read)
  show "\<forall>c \<in> set lettersBody. allowedByte c"
    by (auto simp: lettersBody_def allowedByte_def)
  show "CHR ''<'' \<notin> set lettersBody" by (auto simp: lettersBody_def)
  show "firstChunkSize \<le> length lettersBody" by (simp add: lettersBody_def firstChunkSize_def)
qed (simp_all add: lettersResponse_def)

lemma parse_letters: "parseFilterContents lettersBody = (1, ChecksumIEEE lettersBody, [])"
proof -
  have t: "terminated lettersBody" by (simp add: terminated_def lettersBody_def)
  have "textLines lettersBody = replicate 4096 (CHR ''a'') # textLines []"
    unfolding lettersBody_def by (rule textLines_line) simp
  then have l: "trimmedLines lettersBody = [replicate 4096 (CHR ''a'')]"
    by (simp add: trimmedLines_def TrimSpace_letters)
  have n: "filterTitleRegexp (replicate 4096 (CHR ''a'')) = None"
    using filterTitleRegexp_bang [of "replicate 4096 (CHR ''a'')"]
    by (cases "filterTitleRegexp (replicate 4096 (CHR ''a''))") auto
  from parseLoop_terminated [OF t, of 0 "[]" False 0] show ?thesis
    by (simp add: parseFilterContents_def ChecksumIEEE_def l ruleLine_def
        List.map_filter_simps n)
qed

lemma twoLists_snapshot:
  "snapshot True (startTime flaky) (FiltersUpdateIntervalHours twoLists) (getFilters False twoLists)
     = [zeroFilter\<lparr> ID := 1, URL := URL (defaultFilters ! 0), Name := Name (defaultFilters ! 0) \<rparr>,
        zeroFilter\<lparr> ID := 5, URL := ''http://b/list.txt'', Name := ''b'',
                    checksum := ChecksumIEEE lettersBody \<rparr>]"
  by (simp add: twoLists_def firstRun_def defaultFilters_def zeroFilter_def getFilters_def)

lemma flaky_first:
  "update (fetch flaky 0) uf fs = ((False, Some ErrGet), uf\<lparr> LastUpdated := 1600000100 \<rparr>,
      Chtimes fs (ContentFile (ID uf)) 1600000100)"
  by (simp add: flaky_def noConnection_def update_def updateIntl_def download_def Let_def)

lemma flaky_second:
  "checksum uf = ChecksumIEEE lettersBody \<Longrightarrow>
   update (fetch flaky (Suc 0)) uf fs = ((False, None), uf\<lparr> LastUpdated := 1600000200 \<rparr>,
      Chtimes fs (ContentFile (ID uf)) 1600000200)"
proof -
  assume c: "checksum uf = ChecksumIEEE lettersBody"
  have f: "fetch flaky (Suc 0) = lettersResponse" by (simp add: flaky_def)
  have t: "clock lettersResponse = 1600000200" by (simp add: lettersResponse_def)
  from c have "fst (snd (parseFilterContents lettersBody)) = checksum uf"
    by (simp add: parse_letters)
  from update_unchanged [OF download_letters this, of fs] show ?thesis
    unfolding f t .
qed

text \<open>
  The claim as first stated fails when the first of two fetches fails and the second
  succeeds: the first filter's \<open>LastUpdated\<close> is no longer what it was.
\<close>

theorem failed_fetch_counterexample:
  "snd (fst (update (fetch flaky 0)
       (snapshot True (startTime flaky) (FiltersUpdateIntervalHours twoLists) (Filters twoLists) ! 0)
       (disk twoLists))) \<noteq> None \<and>
   snd (fst (update (fetch flaky 1)
       (snapshot True (startTime flaky) (FiltersUpdateIntervalHours twoLists) (Filters twoLists) ! 1)
       (disk twoLists))) = None \<and>
   LastUpdated (Filters (snd (refreshFiltersArray False True flaky twoLists)) ! 0)
     \<noteq> LastUpdated (Filters twoLists ! 0)"
proof -
  note s = twoLists_snapshot [unfolded getFilters_def, simplified]
  have a: "snd (fst (update (fetch flaky 0)
       (snapshot True (startTime flaky) (FiltersUpdateIntervalHours twoLists) (Filters twoLists) ! 0)
       (disk twoLists))) \<noteq> None"
    by (simp add: flaky_first)
  have b: "snd (fst (update (fetch flaky 1)
       (snapshot True (startTime flaky) (FiltersUpdateIntervalHours twoLists) (Filters twoLists) ! 1)
       (disk twoLists))) = None"
    by (simp add: s flaky_second)
  have c: "refreshFiltersArray False True flaky twoLists =
     ((0,
       [zeroFilter\<lparr> ID := 1, URL := URL (defaultFilters ! 0), Name := Name (defaultFilters ! 0),
                    LastUpdated := 1600000100 \<rparr>,
        zeroFilter\<lparr> ID := 5, URL := ''http://b/list.txt'', Name := ''b'',
                    checksum := ChecksumIEEE lettersBody, LastUpdated := 1600000200 \<rparr>],
       [False, False], False),
      twoLists\<lparr> Filters :=
        [(Filters twoLists ! 0)\<lparr> LastUpdated := 1600000100 \<rparr>,
         (Filters twoLists ! 1)\<lparr> LastUpdated := 1600000200 \<rparr>] \<rparr>)"
    by (simp add: refreshFiltersArray_def twoLists_snapshot flaky_first flaky_second Let_def
        putFilters_def)
       (simp add: getFilters_def twoLists_def firstRun_def defaultFilters_def zeroFilter_def
        Chtimes_def)
  show ?thesis using a b by (simp add: c) (simp add: twoLists_def firstRun_def defaultFilters_def zeroFilter_def zeroTime_def)
qed

theorem failed_fetch_keeps_metadata_witness:
  "Filters (snd (refreshFiltersArray False True flaky twoLists)) ! 0
     = (defaultFilters ! 0)\<lparr> LastUpdated := 1600000100 \<rparr> \<and>
   snd (fst (update (fetch flaky 0) (zeroFilter\<lparr> ID := 1 \<rparr>) Map.empty)) = Some ErrGet"
proof -
  let ?snap = "snapshot True (startTime flaky) (FiltersUpdateIntervalHours twoLists) (getFilters False twoLists)"
  have d: "distinct (map (\<lambda>f. (ID f, URL f)) (getFilters False twoLists))"
    by (simp add: twoLists_def firstRun_def defaultFilters_def zeroFilter_def getFilters_def)
  have j: "0 < length ?snap" and i: "1 < length ?snap" by (simp_all add: twoLists_snapshot)
  have k: "0 < length (getFilters False twoLists)"
    by (simp add: twoLists_def firstRun_def getFilters_def)
  have id: "ID (?snap ! 0) = ID (getFilters False twoLists ! 0)"
    and url: "URL (?snap ! 0) = URL (getFilters False twoLists ! 0)"
    by (simp_all add: twoLists_snapshot)
       (simp_all add: twoLists_def firstRun_def defaultFilters_def zeroFilter_def getFilters_def)
  have f: "snd (fst (update (fetch flaky 0) (?snap ! 0) Map.empty)) \<noteq> None"
    by (simp add: flaky_first)
  have s: "snd (fst (update (fetch flaky 1) (?snap ! 1) Map.empty)) = None"
    by (simp add: twoLists_snapshot flaky_second)
  from failed_fetch_keeps_metadata [OF d refl j k id url f i s]
  have "getFilters False (snd (refreshFiltersArray False True flaky twoLists)) ! 0
          = (getFilters False twoLists ! 0)\<lparr> LastUpdated := clock (fetch flaky 0) \<rparr>" .
  then show ?thesis
    by (simp add: getFilters_def flaky_first)
       (simp add: twoLists_def firstRun_def flaky_def noConnection_def)
qed















section \<open>Further properties: short bodies, a last line without newline, the counter\<close>

text \<open>
  The two tests of the read loop receive the whole 4096-byte buffer, zero bytes after the
  gathered ones included. So when the stream ends before 4096 bytes have arrived, the
  printable-text test meets a zero byte and the fetch fails, whatever the body is.
\<close>

lemma firstChunkBuf_short:
  "length got < firstChunkSize \<Longrightarrow> \<not> isPrintableText (firstChunkBuf got)"
proof -
  assume "length got < firstChunkSize"
  then have "CHR 0x00 \<in> set (firstChunkBuf got)"
    by (simp add: firstChunkBuf_def)
  moreover have "\<not> allowedByte (CHR 0x00)" by (simp add: allowedByte_def)
  ultimately show ?thesis unfolding isPrintableText_iff by blast
qed

lemma readLoop_short:
  assumes "length got + length (concat (map fst rs) @ fst final) < firstChunkSize"
    and "\<forall>r \<in> set rs. snd r" and "fst (snd final) = EOF"
  shows "readLoop rs final True got tmp = Inl ErrNonPrintable"
  using assms
proof (induction rs arbitrary: got tmp)
  case Nil
  obtain buf e wok where f: "final = (buf, e, wok)" by (metis prod_cases3)
  from Nil f have l: "length (got @ buf) < firstChunkSize" and e: "e = EOF" by simp_all
  from l have t: "got @ take (firstChunkSize - length got) buf = got @ buf" by simp
  have "gather True got buf True = Inl ErrNonPrintable"
    using firstChunkBuf_short [OF l] by (simp add: gather_def Let_def t del: append_assoc)
  then show ?case unfolding f e by simp
next
  case (Cons r rs)
  obtain buf wok where r: "r = (buf, wok)" by (metis surj_pair)
  from Cons.prems r have w: "wok" by simp
  from Cons.prems(1) r have l: "length got + length buf < firstChunkSize" by simp
  from Cons.prems(1) r have l': "length (got @ buf) + length (concat (map fst rs) @ fst final) < firstChunkSize"
    by simp
  from Cons.prems(2) have a: "\<forall>r \<in> set rs. snd r" by simp
  from Cons.IH [OF l' a Cons.prems(3), of "tmp @ buf"] show ?case
    unfolding r by (simp add: gather_partial [OF l] w)
qed

text \<open>
  A response of fewer than 4096 bytes that ends with \<open>io.EOF\<close>, received with status
  200 and written without error, is refused with the non-printable error.
\<close>

theorem short_body_refused:
  assumes "tmpFileOK w" "getOK w" "statusCode w = 200" "\<forall>r \<in> set (reads w). snd r"
    and "fst (snd (lastRead w)) = EOF" and "length (bodyBytes w) < firstChunkSize"
  shows "download w = Inl ErrNonPrintable"
proof -
  from assms(6) have "length ([]::string) + length (concat (map fst (reads w)) @ fst (lastRead w)) < firstChunkSize"
    by (simp add: bodyBytes_def)
  from readLoop_short [OF this assms(4,5)] assms(1-3) show ?thesis
    by (simp add: download_def)
qed

text \<open>
  \<open>parseFilterContents\<close> leaves the loop at the \<open>ReadString\<close> error without
  looking at the data returned with it: the bytes after the last newline of a body change
  neither the checksum, nor the rule count, nor the title.
\<close>

lemma ReadString_append:
  "ReadString r = Some (l, rest) \<Longrightarrow> ReadString (r @ t) = Some (l, rest @ t)"
  by (induction r arbitrary: l rest) (auto split: if_splits option.splits)

lemma parseLoop_tail:
  "terminated r \<Longrightarrow> CHR 0x0A \<notin> set t \<Longrightarrow>
   parseLoop (r @ t) n name seen c = parseLoop r n name seen c"
proof (induction r arbitrary: n name seen c rule: length_induct)
  case (1 r)
  show ?case
  proof (cases "ReadString r")
    case None
    then have e: "r = []" using "1.prems"(1) by (simp add: ReadString_None terminated_no_newline)
    from "1.prems"(2) have "ReadString t = None" by (simp add: ReadString_None)
    then have "parseLoop t n name seen c = (n, c, name)" by (subst parseLoop.simps) simp
    moreover have "parseLoop [] n name seen c = (n, c, name)" by (subst parseLoop.simps) simp
    ultimately show ?thesis by (simp add: e)
  next
    case (Some p)
    obtain l rest where p: "p = (l, rest)" by (metis surj_pair)
    note rs = ReadString_Some [OF Some [unfolded p]]
    from rs have r: "r = l @ rest" by blast
    from rs have "l \<noteq> []" by auto
    then have len: "length rest < length r" unfolding r by simp
    have tr: "terminated rest" using "1.prems"(1) unfolding r by (rule terminated_rest)
    note ih = "1.IH" [rule_format, OF len tr "1.prems"(2)]
    have a: "ReadString (r @ t) = Some (l, rest @ t)"
      using Some p by (simp add: ReadString_append)
    show ?thesis
      by (simp add: parseLoop.simps [of "r @ t"] parseLoop.simps [of r] a Some p ih Let_def
          split: option.splits)
  qed
qed

theorem unterminated_tail_ignored:
  assumes "terminated body" "CHR 0x0A \<notin> set tail"
  shows "parseFilterContents (body @ tail) = parseFilterContents body"
  using parseLoop_tail [OF assms] by (simp add: parseFilterContents_def)

text \<open>
  \<open>updateUniqueFilterID\<close> never lowers the counter and leaves it at least as large
  as every identifier of the list. It compares with \<open><\<close>, so a counter equal to the
  largest identifier stays equal to it. The identifiers are taken below \<open>2 ^ 63 - 1\<close>,
  the range in which the code's \<open>filter.ID + 1\<close> does not wrap around.
\<close>

theorem counter_reaches_ids:
  assumes "\<forall>f \<in> set fs. ID f < 2 ^ 63 - 1"
  shows "n \<le> updateUniqueFilterID fs n \<and> (\<forall>f \<in> set fs. ID f \<le> updateUniqueFilterID fs n)"
  using assms
proof (induction fs arbitrary: n)
  case Nil show ?case by simp
next
  case (Cons f fs)
  let ?m = "if n < ID f then ID f + 1 else n"
  from Cons.prems have "\<forall>g \<in> set fs. ID g < 2 ^ 63 - 1" by simp
  from Cons.IH [OF this, of ?m] have a: "?m \<le> updateUniqueFilterID fs ?m"
    and b: "\<forall>g \<in> set fs. ID g \<le> updateUniqueFilterID fs ?m" by auto
  have "n \<le> ?m" "ID f \<le> ?m" by auto
  with a b show ?case by auto
qed

text \<open>The three properties on concrete inputs.\<close>

theorem short_body_refused_witness:
  "length (bodyBytes shortResponse) < firstChunkSize \<and>
   download shortResponse = Inl ErrNonPrintable"
  using short_body_refused [of shortResponse]
  by (simp add: shortResponse_def bodyBytes_def firstChunkSize_def)

theorem unterminated_tail_ignored_witness:
  "terminated smallList \<and>
   parseFilterContents (smallList @ ''||last.example^'') = parseFilterContents smallList \<and>
   parseFilterContents ([] @ ''||last.example^'') = parseFilterContents []"
  using unterminated_tail_ignored [of smallList "''||last.example^''"]
        unterminated_tail_ignored [of "[]" "''||last.example^''"]
  by (simp add: terminated_def smallList_def)

theorem counter_reaches_ids_witness:
  "updateUniqueFilterID [zeroFilter\<lparr> ID := 7 \<rparr>] 7 = 7 \<and>
   updateUniqueFilterID [zeroFilter\<lparr> ID := 7 \<rparr>] 6 = 8"
  using counter_reaches_ids [of "[zeroFilter\<lparr> ID := 7 \<rparr>]" 7]
  by simp

end
